theory Spec2Isabelle
  imports Main "HOL-Library.Signed_Division"
begin

section \<open>C values, arrays and loops\<close>

text \<open>
  The program \<^verbatim>\<open>p3.c\<close> is an MPI program: \<open>p\<close> processes run the same code on their own
  arrays and meet in collective operations. All its data are C \<^verbatim>\<open>int\<close>s and arrays of
  \<^verbatim>\<open>int\<close>. A value is modelled as an \<open>int\<close>; what C leaves undefined is an error value
  of the model: an array access outside the allocated block (\<open>OutOfBounds\<close>), a signed
  result outside the 32-bit range (\<open>Overflow\<close>), a division by zero (\<open>DivByZero\<close>) and a
  read of memory that \<^verbatim>\<open>malloc\<close> returned and nobody wrote (\<open>UninitRead\<close>).
  \<open>ConfigError\<close> is the failure the specification speaks of; no statement of the source
  produces it. Sizes and loop counters (\<open>n\<close>, \<open>p\<close>, \<open>loc_n\<close>, \<open>my_rank\<close>, \<open>v\<close>, \<open>i\<close>) count
  upwards from 0 or 1 to a bound and are natural numbers.
\<close>

datatype error = ConfigError | OutOfBounds | Overflow | DivByZero | UninitRead

definition INFINITY :: int where
  "INFINITY = 1000000"

definition INT_MAX :: int where
  "INT_MAX = 2147483647"

definition INT_MIN :: int where
  "INT_MIN = - 2147483648"

text \<open>The result of a signed arithmetic expression.\<close>

definition c_int :: "int \<Rightarrow> error + int" where
  "c_int x = (if INT_MIN \<le> x \<and> x \<le> INT_MAX then Inr x else Inl Overflow)"

text \<open>\<^verbatim>\<open>a[i]\<close> as an rvalue and \<^verbatim>\<open>a[i] = x\<close>, for an array of \<open>length a\<close> elements.\<close>

definition rd :: "int list \<Rightarrow> int \<Rightarrow> error + int" where
  "rd a i = (if 0 \<le> i \<and> i < int (length a) then Inr (a ! nat i) else Inl OutOfBounds)"

definition wr :: "int list \<Rightarrow> int \<Rightarrow> int \<Rightarrow> error + int list" where
  "wr a i x = (if 0 \<le> i \<and> i < int (length a) then Inr (a[nat i := x]) else Inl OutOfBounds)"

text \<open>
  A buffer that \<^verbatim>\<open>malloc\<close> returned holds \<open>None\<close> where nothing has been stored yet.
\<close>

definition rdo :: "int option list \<Rightarrow> int \<Rightarrow> error + int" where
  "rdo a i =
     (if 0 \<le> i \<and> i < int (length a)
      then (case a ! nat i of None \<Rightarrow> Inl UninitRead | Some x \<Rightarrow> Inr x)
      else Inl OutOfBounds)"

definition wro :: "int option list \<Rightarrow> int \<Rightarrow> int \<Rightarrow> error + int option list" where
  "wro a i x =
     (if 0 \<le> i \<and> i < int (length a) then Inr (a[nat i := Some x]) else Inl OutOfBounds)"

text \<open>\<^verbatim>\<open>for (v = i; v < n; v++) body\<close>, stopping at the first error.\<close>

function for_loop :: "nat \<Rightarrow> nat \<Rightarrow> (nat \<Rightarrow> 's \<Rightarrow> error + 's) \<Rightarrow> 's \<Rightarrow> error + 's" where
  "for_loop i n body s =
     (if i < n
      then (case body i s of Inl e \<Rightarrow> Inl e | Inr s' \<Rightarrow> for_loop (Suc i) n body s')
      else Inr s)"
  by pat_completeness auto
termination
  by (relation "measure (\<lambda>(i, n, body, s). n - i)") auto

declare for_loop.simps [simp del]

text \<open>Running a list of fallible computations in order: the first error aborts.\<close>

fun all_ok :: "(error + 'a) list \<Rightarrow> error + 'a list" where
  "all_ok [] = Inr []"
| "all_ok (x # xs) =
     (case x of Inl e \<Rightarrow> Inl e
      | Inr y \<Rightarrow> (case all_ok xs of Inl e \<Rightarrow> Inl e | Inr ys \<Rightarrow> Inr (y # ys)))"

section \<open>The local reduction\<close>

text \<open>
  \<^verbatim>\<open>Find_min_dist\<close> (lines 352-369). Its parameters \<^verbatim>\<open>my_rank\<close> and \<^verbatim>\<open>comm\<close> are unused.
  The loop state is the pair \<open>(loc_u, loc_min_dist)\<close>.
\<close>

definition Find_min_dist :: "int list \<Rightarrow> int list \<Rightarrow> nat \<Rightarrow> error + int" where
  "Find_min_dist loc_dist loc_known loc_n =
     (case for_loop 0 loc_n
             (\<lambda>loc_v (loc_u, loc_min_dist).
                case rd loc_known (int loc_v) of Inl e \<Rightarrow> Inl e
                | Inr k \<Rightarrow>
                    if k = 0
                    then (case rd loc_dist (int loc_v) of Inl e \<Rightarrow> Inl e
                          | Inr d \<Rightarrow>
                              if d < loc_min_dist then Inr (int loc_v, d)
                              else Inr (loc_u, loc_min_dist))
                    else Inr (loc_u, loc_min_dist))
             (INFINITY, INFINITY)
      of Inl e \<Rightarrow> Inl e | Inr (loc_u, loc_min_dist) \<Rightarrow> Inr loc_u)"

text \<open>
  Lines 296-306 of \<^verbatim>\<open>Dijkstra\<close>: the pair \<^verbatim>\<open>my_min\<close> a process contributes to the
  reduction, \<^verbatim>\<open>my_min[0]\<close> the distance and \<^verbatim>\<open>my_min[1]\<close> the global vertex.
\<close>

definition my_min :: "int list \<Rightarrow> int list \<Rightarrow> nat \<Rightarrow> nat \<Rightarrow> error + (int \<times> int)" where
  "my_min loc_dist known loc_n my_rank =
     (case Find_min_dist loc_dist known loc_n of Inl e \<Rightarrow> Inl e
      | Inr loc_u \<Rightarrow>
          if loc_u < INFINITY
          then (case rd loc_dist loc_u of Inl e \<Rightarrow> Inl e
                | Inr d \<Rightarrow>
                    (case c_int (int my_rank * int loc_n) of Inl e \<Rightarrow> Inl e
                     | Inr off \<Rightarrow>
                         (case c_int (loc_u + off) of Inl e \<Rightarrow> Inl e
                          | Inr g \<Rightarrow> Inr (d, g))))
          else Inr (INFINITY, INFINITY))"

section \<open>The global reduction\<close>

text \<open>
  \<^verbatim>\<open>MPI_Allreduce(my_min, glbl_min, 1, MPI_2INT, MPI_MINLOC, comm)\<close> (line 309). The
  operation \<^verbatim>\<open>MPI_MINLOC\<close> is the one the MPI standard defines on (value, index) pairs:
  the smaller value wins, and on equal values the smaller index. The collective combines
  the send buffers of all ranks and stores the result in the receive buffer of every rank.
\<close>

definition MINLOC :: "int \<times> int \<Rightarrow> int \<times> int \<Rightarrow> int \<times> int" where
  "MINLOC a b =
     (if fst a < fst b then a
      else if fst b < fst a then b
      else (fst a, min (snd a) (snd b)))"

definition MINLOC_reduce :: "(int \<times> int) list \<Rightarrow> int \<times> int" where
  "MINLOC_reduce sendbufs = foldl MINLOC (hd sendbufs) (tl sendbufs)"

definition MPI_Allreduce_MINLOC :: "(int \<times> int) list \<Rightarrow> (int \<times> int) list" where
  "MPI_Allreduce_MINLOC sendbufs = replicate (length sendbufs) (MINLOC_reduce sendbufs)"

section \<open>The block-column layout and the matrix transfers\<close>

text \<open>
  An MPI datatype is modelled by its type map, the list of displacements of its entries
  from the start of the datatype, and its extent, the distance between two consecutive
  datatypes in a buffer. Both are counted in elements of \<^verbatim>\<open>MPI_INT\<close>, the only base type
  of the program; the lower bound is 0 throughout.
\<close>

record mpi_type =
  displs :: "nat list"
  extent :: nat

definition MPI_Type_contiguous :: "nat \<Rightarrow> mpi_type" where
  "MPI_Type_contiguous count = \<lparr>displs = [0..<count], extent = count\<rparr>"

definition MPI_Type_vector :: "nat \<Rightarrow> nat \<Rightarrow> nat \<Rightarrow> mpi_type" where
  "MPI_Type_vector count blocklength stride =
     \<lparr>displs = concat (map (\<lambda>i. map (\<lambda>j. i * stride + j) [0..<blocklength]) [0..<count]),
      extent = (if count = 0 then 0 else (count - 1) * stride + blocklength)\<rparr>"

definition MPI_Type_create_resized :: "mpi_type \<Rightarrow> nat \<Rightarrow> mpi_type" where
  "MPI_Type_create_resized oldtype ext = oldtype\<lparr>extent := ext\<rparr>"

text \<open>\<^verbatim>\<open>Build_blk_col_type\<close> (lines 144-162).\<close>

definition Build_blk_col_type :: "nat \<Rightarrow> nat \<Rightarrow> mpi_type" where
  "Build_blk_col_type n loc_n =
     (let block_mpi_t = MPI_Type_contiguous loc_n;
          ext = extent block_mpi_t;
          first_bc_mpi_t = MPI_Type_vector n loc_n n
      in MPI_Type_create_resized first_bc_mpi_t ext)"

text \<open>
  \<^verbatim>\<open>MPI_Scatter(sendbuf, 1, sendtype, recvbuf, count, MPI_INT, 0, comm)\<close> among \<open>p\<close>
  processes: rank \<open>k\<close> receives, in the order of the type map, the entries of the
  \<open>k\<close>-th datatype of the root's send buffer, which starts \<open>k\<close> extents into it. The
  result is the list of the receive buffers by rank.
\<close>

definition MPI_Scatter :: "int list \<Rightarrow> mpi_type \<Rightarrow> nat \<Rightarrow> error + int list list" where
  "MPI_Scatter sendbuf sendtype p =
     all_ok (map (\<lambda>k. all_ok (map (\<lambda>d. rd sendbuf (int (k * extent sendtype + d)))
                                  (displs sendtype)))
                 [0..<p])"

text \<open>
  \<^verbatim>\<open>MPI_Gather(sendbuf, count, MPI_INT, recvbuf, 1, recvtype, 0, comm)\<close>: the root stores
  the \<open>m\<close>-th element sent by rank \<open>k\<close> at the \<open>m\<close>-th displacement of the \<open>k\<close>-th
  datatype of its receive buffer.
\<close>

definition MPI_Gather :: "int list list \<Rightarrow> mpi_type \<Rightarrow> int option list \<Rightarrow> error + int option list" where
  "MPI_Gather sendbufs recvtype recvbuf =
     for_loop 0 (length sendbufs)
       (\<lambda>k buf.
          for_loop 0 (length (displs recvtype))
            (\<lambda>m buf'.
               case rd (sendbufs ! k) (int m) of Inl e \<Rightarrow> Inl e
               | Inr x \<Rightarrow> wro buf' (int (k * extent recvtype + displs recvtype ! m)) x)
            buf)
       recvbuf"

text \<open>
  \<^verbatim>\<open>Read_matrix\<close> (lines 178-193). The \<open>n * n\<close> numbers that rank 0 reads into \<^verbatim>\<open>mat\<close> in
  row-major order are the list \<open>mat\<close>; the size \<^verbatim>\<open>n*n*sizeof(int)\<close> multiplies two
  \<^verbatim>\<open>int\<close>s first. The result is the list of the blocks \<^verbatim>\<open>loc_mat\<close> by rank.
\<close>

definition Read_matrix :: "int list \<Rightarrow> nat \<Rightarrow> nat \<Rightarrow> mpi_type \<Rightarrow> nat \<Rightarrow> error + int list list" where
  "Read_matrix mat n loc_n blk_col_mpi_t p =
     (case c_int (int n * int n) of Inl e \<Rightarrow> Inl e
      | Inr sz \<Rightarrow> MPI_Scatter mat blk_col_mpi_t p)"

text \<open>
  \<^verbatim>\<open>Print_matrix\<close> (lines 242-260): the matrix that rank 0 prints, row by row
  (an entry 1000000 is printed as \<^verbatim>\<open>i\<close>).
\<close>

definition Print_matrix :: "int list list \<Rightarrow> nat \<Rightarrow> nat \<Rightarrow> mpi_type \<Rightarrow> error + int list list" where
  "Print_matrix loc_mats n loc_n blk_col_mpi_t =
     (case c_int (int n * int n) of Inl e \<Rightarrow> Inl e
      | Inr sz \<Rightarrow>
          (case MPI_Gather loc_mats blk_col_mpi_t (replicate (n * n) None) of Inl e \<Rightarrow> Inl e
           | Inr mat \<Rightarrow>
               all_ok (map (\<lambda>i. all_ok (map (\<lambda>j. rdo mat (int (i * n + j))) [0..<n])) [0..<n])))"

section \<open>The sequential reference\<close>

text \<open>
  The sequential single-process Dijkstra that the specification compares the engine
  with. It follows the words of the specification (section 4.3 for one worker), not the
  source: the distances start as row 0 of the matrix and the source is known; each of
  the \<open>n - 1\<close> rounds takes the unknown vertex of least distance, the lowest vertex among
  ties, marks it known and relaxes every vertex that is still unknown. The state is the
  triple of the distances, the predecessors and the known set.
\<close>

fun spec_min :: "int list \<Rightarrow> nat list \<Rightarrow> (int \<times> nat) option" where
  "spec_min dist [] = None"
| "spec_min dist (v # vs) =
     (case spec_min dist vs of None \<Rightarrow> Some (dist ! v, v)
      | Some (d, u) \<Rightarrow> if dist ! v \<le> d then Some (dist ! v, v) else Some (d, u))"

definition spec_round ::
    "nat \<Rightarrow> int list \<Rightarrow> int list \<times> int list \<times> bool list \<Rightarrow> int list \<times> int list \<times> bool list" where
  "spec_round n mat s =
     (case s of (dist, pred, known) \<Rightarrow>
        (case spec_min dist (filter (\<lambda>v. \<not> known ! v) [0..<n]) of None \<Rightarrow> s
         | Some (min_dist, u) \<Rightarrow>
             (let known' = known[u := True]
              in (map (\<lambda>v. if \<not> known' ! v \<and> min_dist + mat ! (u * n + v) < dist ! v
                           then min_dist + mat ! (u * n + v) else dist ! v) [0..<n],
                  map (\<lambda>v. if \<not> known' ! v \<and> min_dist + mat ! (u * n + v) < dist ! v
                           then int u else pred ! v) [0..<n],
                  known'))))"

definition spec_init :: "nat \<Rightarrow> int list \<Rightarrow> int list \<times> int list \<times> bool list" where
  "spec_init n mat = (map (\<lambda>v. mat ! v) [0..<n], replicate n 0, (replicate n False)[0 := True])"

definition spec_seq_Dijkstra :: "nat \<Rightarrow> int list \<Rightarrow> int list \<times> int list \<times> bool list" where
  "spec_seq_Dijkstra n mat = ((spec_round n mat) ^^ (n - 1)) (spec_init n mat)"

text \<open>
  After \<open>k\<close> rounds the reference can still find a vertex below \<open>INFINITY\<close>: an unknown
  vertex is below it, or no vertex is unknown.
\<close>

definition spec_progress :: "nat \<Rightarrow> int list \<Rightarrow> nat \<Rightarrow> bool" where
  "spec_progress n mat k \<longleftrightarrow>
     (case (spec_round n mat ^^ k) (spec_init n mat) of
        (dist, pred, known) \<Rightarrow>
          (\<exists>v<n. \<not> known ! v \<and> dist ! v < INFINITY) \<or> (\<forall>v<n. known ! v))"

section \<open>The engine\<close>

text \<open>
  The arrays of one process: \<^verbatim>\<open>loc_dist\<close> and \<^verbatim>\<open>loc_pred\<close> (allocated by \<^verbatim>\<open>main\<close>, lines
  86-87) and \<^verbatim>\<open>known\<close> (allocated by \<^verbatim>\<open>Dijkstra\<close>, line 279), of \<open>loc_n\<close> elements each.
\<close>

record proc =
  loc_dist :: "int list"
  loc_pred :: "int list"
  known :: "int list"

text \<open>
  Lines 279-289 of \<^verbatim>\<open>Dijkstra\<close> on the process of rank \<open>my_rank\<close> with the block \<open>mat\<close>.
  The loop stores into every element \<open>v < loc_n\<close> of the three arrays, so they are
  given by their contents after the loop.
\<close>

definition Dijkstra_init :: "int list \<Rightarrow> nat \<Rightarrow> nat \<Rightarrow> error + proc" where
  "Dijkstra_init mat loc_n my_rank =
     (case all_ok (map (\<lambda>v. rd mat (int (0 * loc_n + v))) [0..<loc_n]) of Inl e \<Rightarrow> Inl e
      | Inr d \<Rightarrow>
          (case (if my_rank = 0 then wr (replicate loc_n 0) 0 1 else Inr (replicate loc_n 0)) of
             Inl e \<Rightarrow> Inl e
           | Inr kn \<Rightarrow> Inr \<lparr>loc_dist = d, loc_pred = replicate loc_n 0, known = kn\<rparr>))"

text \<open>
  Lines 312-332: what a process does with the result \<^verbatim>\<open>glbl_min\<close> of the reduction.
  \<^verbatim>\<open>/\<close> and \<^verbatim>\<open>%\<close> truncate towards zero.
\<close>

definition relax :: "int list \<Rightarrow> nat \<Rightarrow> int \<Rightarrow> int \<Rightarrow> nat \<Rightarrow> proc \<Rightarrow> error + proc" where
  "relax mat loc_n min_dist u v s =
     (case rd (known s) (int v) of Inl e \<Rightarrow> Inl e
      | Inr k \<Rightarrow>
          if k = 0
          then (case c_int (u * int loc_n) of Inl e \<Rightarrow> Inl e
                | Inr row \<Rightarrow>
                    (case c_int (row + int v) of Inl e \<Rightarrow> Inl e
                     | Inr idx \<Rightarrow>
                         (case rd mat idx of Inl e \<Rightarrow> Inl e
                          | Inr w \<Rightarrow>
                              (case c_int (min_dist + w) of Inl e \<Rightarrow> Inl e
                               | Inr new_dist \<Rightarrow>
                                   (case rd (loc_dist s) (int v) of Inl e \<Rightarrow> Inl e
                                    | Inr d \<Rightarrow>
                                        if new_dist < d
                                        then (case wr (loc_dist s) (int v) new_dist of
                                                Inl e \<Rightarrow> Inl e
                                              | Inr ds \<Rightarrow>
                                                  (case wr (loc_pred s) (int v) u of
                                                     Inl e \<Rightarrow> Inl e
                                                   | Inr ps \<Rightarrow>
                                                       Inr (s\<lparr>loc_dist := ds, loc_pred := ps\<rparr>)))
                                        else Inr s)))))
          else Inr s)"

definition Dijkstra_update :: "int list \<Rightarrow> nat \<Rightarrow> nat \<Rightarrow> int \<times> int \<Rightarrow> proc \<Rightarrow> error + proc" where
  "Dijkstra_update mat loc_n my_rank glbl_min s =
     (let min_dist = fst glbl_min; u = snd glbl_min
      in if loc_n = 0 then Inl DivByZero
         else (case (if u sdiv int loc_n = int my_rank
                     then wr (known s) (u smod int loc_n) 1
                     else Inr (known s)) of
                 Inl e \<Rightarrow> Inl e
               | Inr kn \<Rightarrow> for_loop 0 loc_n (relax mat loc_n min_dist u) (s\<lparr>known := kn\<rparr>)))"

text \<open>
  One pass of the loop of lines 293-333 on all processes: every process computes its
  \<^verbatim>\<open>my_min\<close>, the reduction hands \<^verbatim>\<open>glbl_min\<close> to every rank, every process updates its
  arrays. \<open>mats ! r\<close> and \<open>procs ! r\<close> are the block and the arrays of rank \<open>r\<close>. An error
  on one process aborts the run.
\<close>

definition Dijkstra_round :: "int list list \<Rightarrow> nat \<Rightarrow> proc list \<Rightarrow> error + proc list" where
  "Dijkstra_round mats loc_n procs =
     (case all_ok (map (\<lambda>r. my_min (loc_dist (procs ! r)) (known (procs ! r)) loc_n r)
                       [0..<length procs]) of
        Inl e \<Rightarrow> Inl e
      | Inr my_mins \<Rightarrow>
          (let glbl_mins = MPI_Allreduce_MINLOC my_mins
           in all_ok (map (\<lambda>r. Dijkstra_update (mats ! r) loc_n r (glbl_mins ! r) (procs ! r))
                          [0..<length procs])))"

text \<open>
  \<^verbatim>\<open>Dijkstra\<close> (lines 273-336) on all processes. The result keeps \<^verbatim>\<open>known\<close>, which the
  program frees, beside the two output arrays.
\<close>

definition Dijkstra_start :: "int list list \<Rightarrow> nat \<Rightarrow> error + proc list" where
  "Dijkstra_start mats loc_n =
     all_ok (map (\<lambda>r. Dijkstra_init (mats ! r) loc_n r) [0..<length mats])"

definition Dijkstra :: "int list list \<Rightarrow> nat \<Rightarrow> nat \<Rightarrow> error + proc list" where
  "Dijkstra mats loc_n n =
     (case Dijkstra_start mats loc_n of Inl e \<Rightarrow> Inl e
      | Inr procs \<Rightarrow> for_loop 1 n (\<lambda>i. Dijkstra_round mats loc_n) procs)"

text \<open>
  The arrays of all processes when the loop counter of line 293 has the value \<open>i\<close>,
  that is, after \<open>i - 1\<close> passes.
\<close>

definition Dijkstra_upto :: "int list list \<Rightarrow> nat \<Rightarrow> nat \<Rightarrow> error + proc list" where
  "Dijkstra_upto mats loc_n i =
     (case Dijkstra_start mats loc_n of Inl e \<Rightarrow> Inl e
      | Inr procs \<Rightarrow> for_loop 1 i (\<lambda>i. Dijkstra_round mats loc_n) procs)"

section \<open>The output and the program\<close>

text \<open>
  \<^verbatim>\<open>Print_dists\<close> (lines 379-403): the values printed for \<open>v = 1, \<dots>, n - 1\<close>. The
  receive type \<open>loc_n\<close> times \<^verbatim>\<open>MPI_INT\<close> is the contiguous type.
\<close>

definition Print_dists :: "int list list \<Rightarrow> nat \<Rightarrow> nat \<Rightarrow> error + int list" where
  "Print_dists loc_dists n loc_n =
     (case MPI_Gather loc_dists (MPI_Type_contiguous loc_n) (replicate n None) of
        Inl e \<Rightarrow> Inl e
      | Inr dist \<Rightarrow> all_ok (map (\<lambda>v. rdo dist (int v)) [1..<n]))"

text \<open>
  The \<^verbatim>\<open>while\<close> loop of \<^verbatim>\<open>Print_paths\<close> (lines 434-438). It need not terminate: the
  result \<open>None\<close> is a loop that runs forever.
\<close>

partial_function (option) path_loop ::
    "int option list \<Rightarrow> int list \<Rightarrow> nat \<Rightarrow> int \<Rightarrow> (error + int list \<times> nat) option" where
  "path_loop pred path count w =
     (if w \<noteq> 0
      then (case wr path (int count) w of Inl e \<Rightarrow> Some (Inl e)
            | Inr path' \<Rightarrow>
                (case rdo pred w of Inl e \<Rightarrow> Some (Inl e)
                 | Inr w' \<Rightarrow> path_loop pred path' (Suc count) w'))
      else Some (Inr (path, count)))"

declare path_loop.simps [code]

text \<open>
  The line printed for the vertex \<open>v\<close> (lines 431-442): 0, then \<^verbatim>\<open>path[count-1]\<close> down
  to \<^verbatim>\<open>path[0]\<close>. The array \<^verbatim>\<open>path\<close> has \<open>n\<close> elements; only elements stored by the loop
  are printed.
\<close>

definition Print_path :: "int option list \<Rightarrow> nat \<Rightarrow> nat \<Rightarrow> (error + int list) option" where
  "Print_path pred n v =
     (case path_loop pred (replicate n 0) 0 (int v) of None \<Rightarrow> None
      | Some (Inl e) \<Rightarrow> Some (Inl e)
      | Some (Inr (path, count)) \<Rightarrow> Some (Inr (0 # rev (take count path))))"

fun Print_lines :: "int option list \<Rightarrow> nat \<Rightarrow> nat list \<Rightarrow> (error + int list list) option" where
  "Print_lines pred n [] = Some (Inr [])"
| "Print_lines pred n (v # vs) =
     (case Print_path pred n v of None \<Rightarrow> None
      | Some (Inl e) \<Rightarrow> Some (Inl e)
      | Some (Inr l) \<Rightarrow>
          (case Print_lines pred n vs of None \<Rightarrow> None
           | Some (Inl e) \<Rightarrow> Some (Inl e)
           | Some (Inr ls) \<Rightarrow> Some (Inr (l # ls))))"

text \<open>\<^verbatim>\<open>Print_paths\<close> (lines 412-448): the lines printed for \<open>v = 1, \<dots>, n - 1\<close>.\<close>

definition Print_paths :: "int list list \<Rightarrow> nat \<Rightarrow> nat \<Rightarrow> (error + int list list) option" where
  "Print_paths loc_preds n loc_n =
     (case MPI_Gather loc_preds (MPI_Type_contiguous loc_n) (replicate n None) of
        Inl e \<Rightarrow> Some (Inl e)
      | Inr pred \<Rightarrow> Print_lines pred n [1..<n])"

text \<open>
  \<^verbatim>\<open>main\<close> (lines 71-113) for \<open>p\<close> processes (\<^verbatim>\<open>MPI_Comm_size\<close>, at least 1), the number
  \<open>n\<close> that \<^verbatim>\<open>Read_n\<close> reads and broadcasts, and the matrix entries \<open>mat\<close> on the input.
  \<open>main_run\<close> is lines 83-99, up to the return of \<^verbatim>\<open>Dijkstra\<close>; nothing between
  \<^verbatim>\<open>Read_n\<close> and \<^verbatim>\<open>Dijkstra\<close> compares \<open>n\<close> with \<open>p\<close>. The result of \<open>main\<close> is what rank 0
  prints: the distances and the paths.
\<close>

definition main_run :: "nat \<Rightarrow> nat \<Rightarrow> int list \<Rightarrow> error + proc list" where
  "main_run p n mat =
     (let loc_n = n div p;
          blk_col_mpi_t = Build_blk_col_type n loc_n
      in case Read_matrix mat n loc_n blk_col_mpi_t p of Inl e \<Rightarrow> Inl e
         | Inr loc_mats \<Rightarrow> Dijkstra loc_mats loc_n n)"

definition main :: "nat \<Rightarrow> nat \<Rightarrow> int list \<Rightarrow> (error + int list \<times> int list list) option" where
  "main p n mat =
     (let loc_n = n div p
      in case main_run p n mat of Inl e \<Rightarrow> Some (Inl e)
         | Inr procs \<Rightarrow>
             (case Print_dists (map loc_dist procs) n loc_n of Inl e \<Rightarrow> Some (Inl e)
              | Inr dists \<Rightarrow>
                  (case Print_paths (map loc_pred procs) n loc_n of None \<Rightarrow> None
                   | Some (Inl e) \<Rightarrow> Some (Inl e)
                   | Some (Inr paths) \<Rightarrow> Some (Inr (dists, paths)))))"

section \<open>Predicates of the statements and proofs\<close>

text \<open>
  The invariant of the loop of \<^verbatim>\<open>Find_min_dist\<close> before the iteration \<open>v\<close>: either no
  unknown entry below \<open>v\<close> is below \<open>INFINITY\<close> and the state is the initial one, or
  \<open>loc_u\<close> is the first unknown entry below \<open>v\<close> of least distance.
\<close>

definition fm_inv :: "int list \<Rightarrow> int list \<Rightarrow> nat \<Rightarrow> int \<times> int \<Rightarrow> bool" where
  "fm_inv dist kn v st =
     (case st of (loc_u, m) \<Rightarrow>
        (loc_u = INFINITY \<and> m = INFINITY \<and>
           (\<forall>j<v. kn ! j = 0 \<longrightarrow> INFINITY \<le> dist ! j)) \<or>
        (\<exists>u<v. loc_u = int u \<and> kn ! u = 0 \<and> m = dist ! u \<and> m < INFINITY \<and>
           (\<forall>j<v. kn ! j = 0 \<longrightarrow> m \<le> dist ! j) \<and>
           (\<forall>j<u. kn ! j = 0 \<longrightarrow> m < dist ! j)))"

text \<open>The order of \<^verbatim>\<open>MPI_MINLOC\<close>: by value, then by index.\<close>

definition lexle :: "int \<times> int \<Rightarrow> int \<times> int \<Rightarrow> bool" where
  "lexle a b \<longleftrightarrow> fst a < fst b \<or> (fst a = fst b \<and> snd a \<le> snd b)"

text \<open>
  What the relaxation loop (lines 324-332) has done to the element \<open>j\<close> of the arrays
  of a process, from the arrays \<open>s\<close> before the loop to the arrays \<open>t\<close>: a known element
  is left alone; for an unknown one the entry \<open>u * loc_n + j\<close> of the block was read,
  inside the block.
\<close>

definition relaxed :: "int list \<Rightarrow> nat \<Rightarrow> int \<Rightarrow> int \<Rightarrow> proc \<Rightarrow> proc \<Rightarrow> nat \<Rightarrow> bool" where
  "relaxed mat loc_n min_dist u s t j \<longleftrightarrow>
     (if known s ! j \<noteq> 0
      then loc_dist t ! j = loc_dist s ! j \<and> loc_pred t ! j = loc_pred s ! j
      else 0 \<le> u * int loc_n + int j \<and> u * int loc_n + int j < int (length mat) \<and>
           (if min_dist + mat ! nat (u * int loc_n + int j) < loc_dist s ! j
            then loc_dist t ! j = min_dist + mat ! nat (u * int loc_n + int j) \<and>
                 loc_pred t ! j = u
            else loc_dist t ! j = loc_dist s ! j \<and> loc_pred t ! j = loc_pred s ! j))"

text \<open>
  The arrays of all processes have \<open>loc_n\<close> elements, and there are \<open>p\<close> processes.
\<close>

definition wf_procs :: "nat \<Rightarrow> nat \<Rightarrow> proc list \<Rightarrow> bool" where
  "wf_procs loc_n p procs \<longleftrightarrow>
     length procs = p \<and>
     (\<forall>r<p. length (loc_dist (procs ! r)) = loc_n \<and> length (loc_pred (procs ! r)) = loc_n \<and>
            length (known (procs ! r)) = loc_n)"

text \<open>
  The distributed vectors by global vertex: the vertex \<open>v\<close> is the element \<open>v mod loc_n\<close>
  of the process \<open>v div loc_n\<close>. \<open>gmat mats loc_n u v\<close> is the entry of row \<open>u\<close> and column
  \<open>v\<close> of the matrix, held in the block of the owner of \<open>v\<close>.
\<close>

definition gdist :: "proc list \<Rightarrow> nat \<Rightarrow> nat \<Rightarrow> int" where
  "gdist procs loc_n v = loc_dist (procs ! (v div loc_n)) ! (v mod loc_n)"

definition gpred :: "proc list \<Rightarrow> nat \<Rightarrow> nat \<Rightarrow> int" where
  "gpred procs loc_n v = loc_pred (procs ! (v div loc_n)) ! (v mod loc_n)"

definition gknown :: "proc list \<Rightarrow> nat \<Rightarrow> nat \<Rightarrow> int" where
  "gknown procs loc_n v = known (procs ! (v div loc_n)) ! (v mod loc_n)"

definition gmat :: "int list list \<Rightarrow> nat \<Rightarrow> nat \<Rightarrow> nat \<Rightarrow> int" where
  "gmat mats loc_n u v = mats ! (v div loc_n) ! (u * loc_n + v mod loc_n)"

text \<open>
  One pass of the main loop, seen on the global vectors: the reduction has returned
  \<open>(min_dist, u)\<close>, which is the sentinel or the pair of an unknown vertex; the vertex
  \<open>u\<close> becomes known; a vertex that is known after that keeps its distance and
  predecessor; for a vertex that is still unknown the row \<open>u\<close> was read, so \<open>u\<close> is a
  vertex, and the vertex was relaxed.
\<close>

definition round_step ::
    "int list list \<Rightarrow> nat \<Rightarrow> nat \<Rightarrow> proc list \<Rightarrow> proc list \<Rightarrow> int \<Rightarrow> int \<Rightarrow> bool" where
  "round_step mats loc_n n procs procs' min_dist u \<longleftrightarrow>
     ((u = INFINITY \<and> min_dist = INFINITY) \<or>
      (\<exists>uv<n. u = int uv \<and> min_dist = gdist procs loc_n uv \<and> gknown procs loc_n uv = 0)) \<and>
     (\<forall>v<n. gknown procs' loc_n v = (if int v = u then 1 else gknown procs loc_n v)) \<and>
     (\<forall>v<n. gknown procs' loc_n v \<noteq> 0 \<longrightarrow>
        gdist procs' loc_n v = gdist procs loc_n v \<and> gpred procs' loc_n v = gpred procs loc_n v) \<and>
     (\<forall>v<n. gknown procs' loc_n v = 0 \<longrightarrow>
        0 \<le> u \<and> u < int n \<and>
        (if min_dist + gmat mats loc_n (nat u) v < gdist procs loc_n v
         then gdist procs' loc_n v = min_dist + gmat mats loc_n (nat u) v \<and>
              gpred procs' loc_n v = u
         else gdist procs' loc_n v = gdist procs loc_n v \<and>
              gpred procs' loc_n v = gpred procs loc_n v))"

text \<open>
  The distance of a vertex with the distance of the source, vertex 0, taken as 0: the
  program stores the diagonal entry of the matrix for it and never reads it.
\<close>

definition sdist :: "proc list \<Rightarrow> nat \<Rightarrow> nat \<Rightarrow> int" where
  "sdist procs loc_n u = (if u = 0 then 0 else gdist procs loc_n u)"

text \<open>
  \<open>reach P n v k\<close>: following the predecessors \<open>P\<close> from the vertex \<open>v\<close> stays among the
  vertices below \<open>n\<close> and arrives at vertex 0 after \<open>k\<close> steps.
\<close>

inductive reach :: "(nat \<Rightarrow> int) \<Rightarrow> nat \<Rightarrow> nat \<Rightarrow> nat \<Rightarrow> bool" for P n where
  reach_source: "0 < n \<Longrightarrow> reach P n 0 0"
| reach_step: "0 < v \<Longrightarrow> v < n \<Longrightarrow> 0 \<le> P v \<Longrightarrow> reach P n (nat (P v)) k \<Longrightarrow>
     reach P n v (Suc k)"

text \<open>
  The invariant of the main loop on the global vectors when the loop counter is \<open>i\<close>:
  the source is known; every predecessor is a known vertex; the distance of a vertex other
  than the source is the distance of its predecessor plus the weight of the edge between
  them; a known vertex reaches the source along the predecessors in fewer than \<open>i\<close>
  steps and any vertex in at most \<open>i\<close> steps; at least \<open>i\<close> of the \<open>n\<close> vertices are
  known.
\<close>

definition ginv :: "int list list \<Rightarrow> nat \<Rightarrow> nat \<Rightarrow> nat \<Rightarrow> proc list \<Rightarrow> bool" where
  "ginv mats loc_n n i procs \<longleftrightarrow>
     gknown procs loc_n 0 \<noteq> 0 \<and>
     (\<forall>v<n. 0 \<le> gpred procs loc_n v \<and> gpred procs loc_n v < int n \<and>
            gknown procs loc_n (nat (gpred procs loc_n v)) \<noteq> 0) \<and>
     (\<forall>v<n. v \<noteq> 0 \<longrightarrow>
            gdist procs loc_n v =
              sdist procs loc_n (nat (gpred procs loc_n v)) +
              gmat mats loc_n (nat (gpred procs loc_n v)) v) \<and>
     (\<forall>v<n. (gknown procs loc_n v \<noteq> 0 \<longrightarrow> (\<exists>k<i. reach (gpred procs loc_n) n v k)) \<and>
            (\<exists>k\<le>i. reach (gpred procs loc_n) n v k)) \<and>
     min n i \<le> card {v. v < n \<and> gknown procs loc_n v \<noteq> 0}"

text \<open>
  The vertex \<open>u\<close> is the unknown vertex of least distance, and the lowest such vertex.
\<close>

definition least_unknown :: "proc list \<Rightarrow> nat \<Rightarrow> nat \<Rightarrow> nat \<Rightarrow> bool" where
  "least_unknown procs loc_n n u \<longleftrightarrow>
     u < n \<and> gknown procs loc_n u = 0 \<and>
     (\<forall>v<n. gknown procs loc_n v = 0 \<longrightarrow> gdist procs loc_n u \<le> gdist procs loc_n v) \<and>
     (\<forall>v<u. gknown procs loc_n v = 0 \<longrightarrow> gdist procs loc_n u < gdist procs loc_n v)"

text \<open>
  What the reduction returns: the sentinel when no unknown vertex is below \<open>INFINITY\<close>,
  and else the distance and the number of the least unknown vertex.
\<close>

definition round_sel :: "proc list \<Rightarrow> nat \<Rightarrow> nat \<Rightarrow> int \<Rightarrow> int \<Rightarrow> bool" where
  "round_sel procs loc_n n min_dist u \<longleftrightarrow>
     (u = INFINITY \<and> min_dist = INFINITY \<and>
      (\<forall>v<n. gknown procs loc_n v = 0 \<longrightarrow> INFINITY \<le> gdist procs loc_n v)) \<or>
     (\<exists>uv. u = int uv \<and> min_dist = gdist procs loc_n uv \<and> min_dist < INFINITY \<and>
           least_unknown procs loc_n n uv)"

text \<open>
  The state of the sequential reference and the arrays of the processes hold the same
  vectors.
\<close>

definition sim :: "nat \<Rightarrow> nat \<Rightarrow> int list \<times> int list \<times> bool list \<Rightarrow> proc list \<Rightarrow> bool" where
  "sim loc_n n s procs \<longleftrightarrow>
     s = (map (gdist procs loc_n) [0..<n], map (gpred procs loc_n) [0..<n],
          map (\<lambda>v. gknown procs loc_n v \<noteq> 0) [0..<n])"

text \<open>
  The weights the program documents: from 0 to \<open>INFINITY\<close>, the value for no edge.
\<close>

definition weights_ok :: "int list \<Rightarrow> bool" where
  "weights_ok mat \<longleftrightarrow> (\<forall>x\<in>set mat. 0 \<le> x \<and> x \<le> INFINITY)"

text \<open>
  Every distance is a weight-like value, and every known vertex other than the source
  is below \<open>INFINITY\<close>.
\<close>

definition dist_bounded :: "proc list \<Rightarrow> nat \<Rightarrow> nat \<Rightarrow> bool" where
  "dist_bounded procs loc_n n \<longleftrightarrow>
     (\<forall>v<n. 0 \<le> gdist procs loc_n v \<and> gdist procs loc_n v \<le> INFINITY)"

definition known_finite :: "proc list \<Rightarrow> nat \<Rightarrow> nat \<Rightarrow> bool" where
  "known_finite procs loc_n n \<longleftrightarrow>
     (\<forall>v<n. v \<noteq> 0 \<longrightarrow> gknown procs loc_n v \<noteq> 0 \<longrightarrow> gdist procs loc_n v < INFINITY)"

text \<open>
  A pass can find a vertex: an unknown vertex is below \<open>INFINITY\<close>, or none is unknown.
\<close>

definition can_progress :: "proc list \<Rightarrow> nat \<Rightarrow> nat \<Rightarrow> bool" where
  "can_progress procs loc_n n \<longleftrightarrow>
     (\<exists>v<n. gknown procs loc_n v = 0 \<and> gdist procs loc_n v < INFINITY) \<or>
     (\<forall>v<n. gknown procs loc_n v \<noteq> 0)"

section \<open>Loops and sequences: proof rules\<close>

lemma for_loop_step:
  "i < n \<Longrightarrow> for_loop i n body s =
     (case body i s of Inl e \<Rightarrow> Inl e | Inr s' \<Rightarrow> for_loop (Suc i) n body s')"
  by (subst for_loop.simps) simp

lemma for_loop_done:
  "\<not> i < n \<Longrightarrow> for_loop i n body s = Inr s"
  by (subst for_loop.simps) simp

lemma for_loop_rule:
  assumes "for_loop i n body s = Inr s'"
    and "I i s"
    and "\<And>v t t'. i \<le> v \<Longrightarrow> v < n \<Longrightarrow> I v t \<Longrightarrow> body v t = Inr t' \<Longrightarrow> I (Suc v) t'"
  shows "I (max i n) s'"
  using assms
proof (induction i n body s rule: for_loop.induct)
  case (1 i n body s)
  show ?case
  proof (cases "i < n")
    case False
    with "1.prems"(1,2) show ?thesis
      by (simp add: for_loop_done max_def)
  next
    case True
    from "1.prems"(1) True obtain t where t: "body i s = Inr t"
      and rest: "for_loop (Suc i) n body t = Inr s'"
      by (auto simp: for_loop_step split: sum.splits)
    have "I (Suc i) t"
      using "1.prems"(3) [OF le_refl True "1.prems"(2) t] .
    moreover have "\<And>v u u'. Suc i \<le> v \<Longrightarrow> v < n \<Longrightarrow> I v u \<Longrightarrow> body v u = Inr u' \<Longrightarrow> I (Suc v) u'"
      using "1.prems"(3) by simp
    ultimately have "I (max (Suc i) n) s'"
      using "1.IH" [OF True t rest] by blast
    with True show ?thesis
      by (simp add: max_def)
  qed
qed

lemma for_loop_total:
  assumes "I i s"
    and "\<And>v t. i \<le> v \<Longrightarrow> v < n \<Longrightarrow> I v t \<Longrightarrow> \<exists>t'. body v t = Inr t' \<and> I (Suc v) t'"
  shows "\<exists>s'. for_loop i n body s = Inr s' \<and> I (max i n) s'"
  using assms
proof (induction i n body s rule: for_loop.induct)
  case (1 i n body s)
  show ?case
  proof (cases "i < n")
    case False
    with "1.prems"(1) show ?thesis
      by (simp add: for_loop_done max_def)
  next
    case True
    from "1.prems"(2) [OF le_refl True "1.prems"(1)]
    obtain t where t: "body i s = Inr t" and It: "I (Suc i) t"
      by blast
    have "\<And>v u. Suc i \<le> v \<Longrightarrow> v < n \<Longrightarrow> I v u \<Longrightarrow> \<exists>u'. body v u = Inr u' \<and> I (Suc v) u'"
      using "1.prems"(2) by simp
    with "1.IH" [OF True t It]
    obtain s' where "for_loop (Suc i) n body t = Inr s'" "I (max (Suc i) n) s'"
      by blast
    with True t show ?thesis
      by (simp add: for_loop_step max_def)
  qed
qed

lemma all_ok_map_Inr_self:
  "all_ok (map Inr ys) = Inr ys"
  by (induction ys) auto

lemma all_ok_Inr_iff:
  "all_ok xs = Inr ys \<longleftrightarrow> xs = map Inr ys"
proof
  show "all_ok xs = Inr ys \<Longrightarrow> xs = map Inr ys"
    by (induction xs arbitrary: ys) (auto split: sum.splits)
qed (simp add: all_ok_map_Inr_self)

lemma all_ok_map_Inr:
  "all_ok (map f is) = Inr ys \<longleftrightarrow>
     length ys = length is \<and> (\<forall>k < length is. f (is ! k) = Inr (ys ! k))"
  by (auto simp: all_ok_Inr_iff list_eq_iff_nth_eq)

section \<open>Array accesses and arithmetic: proof rules\<close>

lemma rd_nat:
  "rd a (int i) = (if i < length a then Inr (a ! i) else Inl OutOfBounds)"
  by (simp add: rd_def)

lemma wr_nat:
  "wr a (int i) x = (if i < length a then Inr (a[i := x]) else Inl OutOfBounds)"
  by (simp add: wr_def)

lemma rdo_nat:
  "rdo a (int i) =
     (if i < length a then (case a ! i of None \<Rightarrow> Inl UninitRead | Some x \<Rightarrow> Inr x)
      else Inl OutOfBounds)"
  by (simp add: rdo_def)

lemma wro_nat:
  "wro a (int i) x = (if i < length a then Inr (a[i := Some x]) else Inl OutOfBounds)"
  by (simp add: wro_def)

lemma all_ok_map_total:
  assumes "\<And>x. x \<in> set xs \<Longrightarrow> f x = Inr (g x)"
  shows "all_ok (map f xs) = Inr (map g xs)"
  using assms by (induction xs) auto

lemma c_int_nonneg:
  "0 \<le> x \<Longrightarrow> x \<le> INT_MAX \<Longrightarrow> c_int x = Inr x"
  by (simp add: c_int_def INT_MIN_def)

lemma c_int_Inr:
  "c_int x = Inr y \<Longrightarrow> y = x \<and> INT_MIN \<le> x \<and> x \<le> INT_MAX"
  by (simp add: c_int_def split: if_splits)

section \<open>The local reduction: what a process contributes\<close>

lemma fm_body:
  assumes "fm_inv dist kn v (loc_u, m)"
  shows "fm_inv dist kn (Suc v)
           (if kn ! v = 0 \<and> dist ! v < m then (int v, dist ! v) else (loc_u, m))"
  using assms unfolding fm_inv_def
  by (auto simp: less_Suc_eq)

lemma Find_min_dist_spec:
  assumes "loc_n \<le> length dist" and "loc_n \<le> length kn"
  shows "\<exists>loc_u m. Find_min_dist dist kn loc_n = Inr loc_u \<and>
           fm_inv dist kn loc_n (loc_u, m)"
proof -
  let ?body = "\<lambda>loc_v (loc_u, loc_min_dist).
                case rd kn (int loc_v) of Inl e \<Rightarrow> Inl e
                | Inr k \<Rightarrow>
                    if k = 0
                    then (case rd dist (int loc_v) of Inl e \<Rightarrow> Inl e
                          | Inr d \<Rightarrow>
                              if d < loc_min_dist then Inr (int loc_v, d)
                              else Inr (loc_u, loc_min_dist))
                    else Inr (loc_u, loc_min_dist)"
  have init: "fm_inv dist kn 0 (INFINITY, INFINITY)"
    by (simp add: fm_inv_def)
  have step: "\<exists>t'. ?body v t = Inr t' \<and> fm_inv dist kn (Suc v) t'"
    if "v < loc_n" and "fm_inv dist kn v t" for v t
  proof -
    obtain loc_u m where t: "t = (loc_u, m)" by (cases t)
    have "?body v t = Inr (if kn ! v = 0 \<and> dist ! v < m
                            then (int v, dist ! v) else (loc_u, m))"
      using that(1) assms by (simp add: t rd_def)
    with fm_body [of dist kn v loc_u m] that(2) t show ?thesis
      by simp
  qed
  from for_loop_total [of "fm_inv dist kn" 0 _ loc_n ?body, OF init step]
  obtain st where "for_loop 0 loc_n ?body (INFINITY, INFINITY) = Inr st"
    and "fm_inv dist kn loc_n st"
    by auto
  moreover obtain a b where "st = (a, b)"
    by (cases st)
  ultimately have "Find_min_dist dist kn loc_n = Inr a \<and>
      fm_inv dist kn loc_n (a, b)"
    by (simp add: Find_min_dist_def)
  then show ?thesis
    by blast
qed

lemma my_min_spec:
  assumes "loc_n \<le> length dist" and "loc_n \<le> length kn"
    and "int loc_n \<le> INFINITY"
    and "(int my_rank + 1) * int loc_n \<le> INT_MAX"
  shows "\<exists>d g. my_min dist kn loc_n my_rank = Inr (d, g) \<and>
           (if \<exists>v<loc_n. kn ! v = 0 \<and> dist ! v < INFINITY
            then \<exists>u<loc_n. kn ! u = 0 \<and> d = dist ! u \<and> d < INFINITY \<and>
                   g = int u + int my_rank * int loc_n \<and>
                   (\<forall>v<loc_n. kn ! v = 0 \<longrightarrow> d \<le> dist ! v) \<and>
                   (\<forall>v<u. kn ! v = 0 \<longrightarrow> d < dist ! v)
            else d = INFINITY \<and> g = INFINITY)"
proof -
  from Find_min_dist_spec [OF assms(1,2)]
  obtain loc_u m where f: "Find_min_dist dist kn loc_n = Inr loc_u"
    and inv: "fm_inv dist kn loc_n (loc_u, m)"
    by blast
  have nonneg: "0 \<le> int my_rank * int loc_n"
    by simp
  have expand: "(int my_rank + 1) * int loc_n = int loc_n + int my_rank * int loc_n"
    by (simp add: algebra_simps)
  have off: "INT_MIN \<le> int my_rank * int loc_n" "int my_rank * int loc_n \<le> INT_MAX"
    using assms(4) nonneg expand unfolding INT_MIN_def INT_MAX_def by linarith+
  from inv consider
    (none) "loc_u = INFINITY" "\<forall>j<loc_n. kn ! j = 0 \<longrightarrow> INFINITY \<le> dist ! j"
    | (some) u where "u < loc_n" "loc_u = int u" "kn ! u = 0" "dist ! u < INFINITY"
      "\<forall>j<loc_n. kn ! j = 0 \<longrightarrow> dist ! u \<le> dist ! j"
      "\<forall>j<u. kn ! j = 0 \<longrightarrow> dist ! u < dist ! j"
    unfolding fm_inv_def by auto
  then show ?thesis
  proof cases
    case none
    then show ?thesis
      using f by (auto simp: my_min_def)
  next
    case some
    have lt: "loc_u < INFINITY"
      using some(1,2) assms(3) by simp
    have g: "INT_MIN \<le> int u + int my_rank * int loc_n" "int u + int my_rank * int loc_n \<le> INT_MAX"
      using some(1) assms(4) nonneg expand unfolding INT_MIN_def INT_MAX_def by linarith+
    have "my_min dist kn loc_n my_rank = Inr (dist ! u, int u + int my_rank * int loc_n)"
      using f lt some(1,2) assms(1) off g by (simp add: my_min_def rd_def c_int_def)
    moreover have "\<exists>v<loc_n. kn ! v = 0 \<and> dist ! v < INFINITY"
      using some by blast
    ultimately show ?thesis
      using some by auto
  qed
qed

text \<open>
  What a process contributes, for any contents of its arrays. A process whose arrays have
  \<open>loc_n\<close> elements, with \<open>loc_n\<close> at most 1000000 and global vertex numbers within
  \<^verbatim>\<open>int\<close>, always contributes a pair. If one of its unknown vertices has a distance
  below 1000000, the pair is the least distance among its unknown vertices and the global
  number (local index plus \<open>my_rank * loc_n\<close>) of the first unknown vertex at that
  distance. Otherwise, that is when no unknown vertex is left or every unknown vertex is
  at distance 1000000 or more, the pair is the sentinel (1000000, 1000000).
\<close>

theorem my_min_contribution:
  assumes "length dist = loc_n" and "length kn = loc_n"
    and "int loc_n \<le> INFINITY"
    and "(int my_rank + 1) * int loc_n \<le> INT_MAX"
  shows "\<exists>d g. my_min dist kn loc_n my_rank = Inr (d, g) \<and>
           (if \<exists>v<loc_n. kn ! v = 0 \<and> dist ! v < INFINITY
            then \<exists>u<loc_n. kn ! u = 0 \<and> d = dist ! u \<and> d < INFINITY \<and>
                   g = int u + int my_rank * int loc_n \<and>
                   (\<forall>v<loc_n. kn ! v = 0 \<longrightarrow> d \<le> dist ! v) \<and>
                   (\<forall>v<u. kn ! v = 0 \<longrightarrow> d < dist ! v)
            else d = INFINITY \<and> g = INFINITY)"
  using assms by (intro my_min_spec) simp_all

theorem my_min_contribution_witness:
  "\<exists>d g. my_min [5, 3, 3, 7] [0, 1, 0, 0] 4 2 = Inr (d, g) \<and>
     (if \<exists>v<4. [0, 1, 0, 0 :: int] ! v = 0 \<and> [5, 3, 3, 7 :: int] ! v < INFINITY
      then \<exists>u<4. [0, 1, 0, 0 :: int] ! u = 0 \<and> d = [5, 3, 3, 7] ! u \<and> d < INFINITY \<and>
             g = int u + int 2 * int 4 \<and>
             (\<forall>v<4. [0, 1, 0, 0 :: int] ! v = 0 \<longrightarrow> d \<le> [5, 3, 3, 7] ! v) \<and>
             (\<forall>v<u. [0, 1, 0, 0 :: int] ! v = 0 \<longrightarrow> d < [5, 3, 3, 7] ! v)
      else d = INFINITY \<and> g = INFINITY)"
  by (rule my_min_contribution) (simp_all add: INFINITY_def INT_MAX_def)
section \<open>The global reduction: the winner\<close>

lemma MINLOC_cases: "MINLOC a b = a \<or> MINLOC a b = b"
  by (cases a; cases b) (auto simp: MINLOC_def min_def)

lemma MINLOC_lexle: "lexle (MINLOC a b) a" "lexle (MINLOC a b) b"
  by (auto simp: MINLOC_def lexle_def min_def)

lemma lexle_trans: "lexle a b \<Longrightarrow> lexle b c \<Longrightarrow> lexle a c"
  by (auto simp: lexle_def)

lemma lexle_antisym: "lexle a b \<Longrightarrow> lexle b a \<Longrightarrow> a = b"
  by (cases a; cases b) (auto simp: lexle_def)

lemma foldl_MINLOC:
  "foldl MINLOC a cs \<in> set (a # cs) \<and> (\<forall>c \<in> set (a # cs). lexle (foldl MINLOC a cs) c)"
proof (induction cs arbitrary: a)
  case Nil
  show ?case by (simp add: lexle_def)
next
  case (Cons b cs)
  from Cons.IH [of "MINLOC a b"]
  have mem: "foldl MINLOC (MINLOC a b) cs \<in> set (MINLOC a b # cs)"
    and le: "\<forall>c \<in> set (MINLOC a b # cs). lexle (foldl MINLOC (MINLOC a b) cs) c"
    by blast+
  have "foldl MINLOC (MINLOC a b) cs \<in> set (a # b # cs)"
    using mem MINLOC_cases [of a b] by auto
  moreover have "lexle (foldl MINLOC (MINLOC a b) cs) (MINLOC a b)"
    using le by simp
  then have "lexle (foldl MINLOC (MINLOC a b) cs) a" "lexle (foldl MINLOC (MINLOC a b) cs) b"
    using MINLOC_lexle [of a b] lexle_trans by blast+
  ultimately show ?case
    using le by simp
qed

lemma MINLOC_reduce_least:
  assumes "cs \<noteq> []"
  shows "MINLOC_reduce cs \<in> set cs" and "\<forall>c \<in> set cs. lexle (MINLOC_reduce cs) c"
  using foldl_MINLOC [of "hd cs" "tl cs"] assms by (simp_all add: MINLOC_reduce_def)

lemma lex_least_Min:
  assumes "r \<in> set cs" and "\<forall>c \<in> set cs. lexle r c"
  shows "fst r = Min (fst ` set cs)"
    and "snd r = Min (snd ` {c \<in> set cs. fst c = fst r})"
proof -
  show "fst r = Min (fst ` set cs)"
    using assms by (intro Min_eqI [symmetric]) (auto simp: lexle_def)
  show "snd r = Min (snd ` {c \<in> set cs. fst c = fst r})"
    using assms by (intro Min_eqI [symmetric]) (auto simp: lexle_def)
qed

lemma MINLOC_reduce_perm:
  assumes "set cs' = set cs" "cs \<noteq> []"
  shows "MINLOC_reduce cs' = MINLOC_reduce cs"
proof -
  have "cs' \<noteq> []" using assms by auto
  from MINLOC_reduce_least [OF this] MINLOC_reduce_least [OF assms(2)] assms(1)
  show ?thesis
    by (intro lexle_antisym) auto
qed

text \<open>
  Claim C3. Every rank receives the same pair from the reduction. It is one of the
  contributed pairs, its distance is the least contributed distance, and its vertex is the
  least vertex among the contributions of that distance. The pair depends on the set of
  contributions only, not on the order in which they are combined.
\<close>

theorem MPI_Allreduce_MINLOC_lowest:
  assumes "r < length sendbufs"
  shows "MPI_Allreduce_MINLOC sendbufs ! r =
           (Min (fst ` set sendbufs),
            Min (snd ` {c \<in> set sendbufs. fst c = Min (fst ` set sendbufs)})) \<and>
         MPI_Allreduce_MINLOC sendbufs ! r \<in> set sendbufs \<and>
         (\<forall>r' < length sendbufs. MPI_Allreduce_MINLOC sendbufs ! r' = MPI_Allreduce_MINLOC sendbufs ! r) \<and>
         (\<forall>sendbufs'. set sendbufs' = set sendbufs \<and> length sendbufs' = length sendbufs \<longrightarrow>
            MPI_Allreduce_MINLOC sendbufs' = MPI_Allreduce_MINLOC sendbufs)"
proof -
  from assms have ne: "sendbufs \<noteq> []"
    by auto
  let ?g = "MINLOC_reduce sendbufs"
  have g: "MPI_Allreduce_MINLOC sendbufs ! r = ?g"
    using assms by (simp add: MPI_Allreduce_MINLOC_def)
  have "?g = (fst ?g, snd ?g)"
    by simp
  also have "\<dots> = (Min (fst ` set sendbufs),
              Min (snd ` {c \<in> set sendbufs. fst c = Min (fst ` set sendbufs)}))"
    using lex_least_Min [OF MINLOC_reduce_least [OF ne]] by simp
  finally have "MPI_Allreduce_MINLOC sendbufs ! r =
      (Min (fst ` set sendbufs), Min (snd ` {c \<in> set sendbufs. fst c = Min (fst ` set sendbufs)}))"
    using g by simp
  moreover have "MPI_Allreduce_MINLOC sendbufs ! r \<in> set sendbufs"
    using g MINLOC_reduce_least(1) [OF ne] by simp
  moreover have "\<forall>r' < length sendbufs.
      MPI_Allreduce_MINLOC sendbufs ! r' = MPI_Allreduce_MINLOC sendbufs ! r"
    using assms by (simp add: MPI_Allreduce_MINLOC_def)
  moreover have "\<forall>sendbufs'. set sendbufs' = set sendbufs \<and> length sendbufs' = length sendbufs \<longrightarrow>
      MPI_Allreduce_MINLOC sendbufs' = MPI_Allreduce_MINLOC sendbufs"
  proof (intro allI impI)
    fix sendbufs'
    assume a: "set sendbufs' = set sendbufs \<and> length sendbufs' = length sendbufs"
    then have "MINLOC_reduce sendbufs' = MINLOC_reduce sendbufs"
      using MINLOC_reduce_perm [OF _ ne] by blast
    with a show "MPI_Allreduce_MINLOC sendbufs' = MPI_Allreduce_MINLOC sendbufs"
      by (simp add: MPI_Allreduce_MINLOC_def)
  qed
  ultimately show ?thesis
    by blast
qed

theorem MPI_Allreduce_MINLOC_lowest_witness:
  "(1::nat) < length [(3 :: int, 10 :: int), (1000000, 1000000), (3, 4)] \<and>
   MPI_Allreduce_MINLOC [(3, 10), (1000000, 1000000), (3, 4)] ! 1 = (3, 4)"
proof -
  let ?cs = "[(3 :: int, 10 :: int), (1000000, 1000000), (3, 4)]"
  have h: "(1::nat) < length ?cs"
    by simp
  have m: "Min (fst ` set ?cs) = 3"
    by simp
  have s: "{c \<in> set ?cs. fst c = 3} = {(3, 10), (3, 4)}"
    by auto
  have "MPI_Allreduce_MINLOC ?cs ! 1 =
      (Min (fst ` set ?cs), Min (snd ` {c \<in> set ?cs. fst c = Min (fst ` set ?cs)}))"
    by (rule conjunct1 [OF MPI_Allreduce_MINLOC_lowest [OF h]])
  also have "\<dots> = (3, 4)"
    unfolding m s by simp
  finally show ?thesis
    using h by blast
qed

section \<open>The layout: distributing and gathering the matrix\<close>

lemma length_concat_blocks:
  "length (concat (map (\<lambda>i. map (f i) [0..<b]) [0..<a])) = a * b"
  by (induction a) auto

lemma nth_concat_blocks:
  "m < a * b \<Longrightarrow> concat (map (\<lambda>i. map (f i) [0..<b]) [0..<a]) ! m = f (m div b) (m mod b)"
proof (induction a)
  case 0
  then show ?case by simp
next
  case (Suc a)
  show ?case
  proof (cases "m < a * b")
    case True
    with Suc.IH show ?thesis
      by (simp add: nth_append length_concat_blocks)
  next
    case False
    with Suc.prems have b: "0 < b" and lo: "a * b \<le> m" and hi: "m - a * b < b"
      by (auto simp: not_less)
    have "(m - a * b + a * b) div b = a" "(m - a * b + a * b) mod b = m - a * b"
      using hi b by simp_all
    then have "m div b = a \<and> m mod b = m - a * b"
      using lo by simp
    with False hi show ?thesis
      by (simp add: nth_append length_concat_blocks)
  qed
qed

lemma displs_blk_col:
  "displs (Build_blk_col_type n loc_n) =
     concat (map (\<lambda>i. map (\<lambda>j. i * n + j) [0..<loc_n]) [0..<n])"
  "extent (Build_blk_col_type n loc_n) = loc_n"
  by (simp_all add: Build_blk_col_type_def MPI_Type_vector_def MPI_Type_contiguous_def
      MPI_Type_create_resized_def Let_def)

lemma length_displs_blk_col:
  "length (displs (Build_blk_col_type n loc_n)) = n * loc_n"
  by (simp add: displs_blk_col length_concat_blocks)

lemma nth_displs_blk_col:
  "m < n * loc_n \<Longrightarrow>
     displs (Build_blk_col_type n loc_n) ! m = (m div loc_n) * n + m mod loc_n"
  by (simp add: displs_blk_col nth_concat_blocks)


lemma MPI_Scatter_total:
  assumes "\<And>k d. k < p \<Longrightarrow> d \<in> set (displs T) \<Longrightarrow> k * extent T + d < length sendbuf"
  shows "MPI_Scatter sendbuf T p =
           Inr (map (\<lambda>k. map (\<lambda>d. sendbuf ! (k * extent T + d)) (displs T)) [0..<p])"
  unfolding MPI_Scatter_def
proof (rule all_ok_map_total)
  fix k
  assume "k \<in> set [0..<p]"
  then have k: "k < p"
    by simp
  show "all_ok (map (\<lambda>d. rd sendbuf (int (k * extent T + d))) (displs T)) =
          Inr (map (\<lambda>d. sendbuf ! (k * extent T + d)) (displs T))"
    by (rule all_ok_map_total) (use assms [OF k] in \<open>simp add: rd_nat del: of_nat_add of_nat_mult\<close>)
qed

lemma MPI_Gather_spec:
  fixes f :: "nat \<Rightarrow> int"
  assumes bounds: "\<And>k m. k < length sendbufs \<Longrightarrow> m < length (displs T) \<Longrightarrow>
      m < length (sendbufs ! k) \<and> k * extent T + displs T ! m < length recvbuf"
    and cons: "\<And>k m. k < length sendbufs \<Longrightarrow> m < length (displs T) \<Longrightarrow>
      sendbufs ! k ! m = f (k * extent T + displs T ! m)"
  shows "\<exists>buf. MPI_Gather sendbufs T recvbuf = Inr buf \<and> length buf = length recvbuf \<and>
           (\<forall>idx<length recvbuf.
              buf ! idx =
                (if \<exists>k<length sendbufs. \<exists>m<length (displs T). idx = k * extent T + displs T ! m
                 then Some (f idx) else recvbuf ! idx))"
proof -
  define M where "M = length (displs T)"
  define pos where "pos k m = k * extent T + displs T ! m" for k m
  define W where "W k m idx \<longleftrightarrow>
      (\<exists>k'<k. \<exists>m'<M. idx = pos k' m') \<or> (\<exists>m'<m. idx = pos k m')" for k m idx
  define I where "I k m buf \<longleftrightarrow> length buf = length recvbuf \<and>
      (\<forall>idx<length recvbuf. buf ! idx = (if W k m idx then Some (f idx) else recvbuf ! idx))"
    for k m buf
  let ?inner = "\<lambda>k m buf'. case rd (sendbufs ! k) (int m) of Inl e \<Rightarrow> Inl e
                  | Inr x \<Rightarrow> wro buf' (int (k * extent T + displs T ! m)) x"
  have W0: "\<not> W 0 0 idx" for idx
    by (simp add: W_def)
  have Wm: "W k (Suc m) idx \<longleftrightarrow> W k m idx \<or> idx = pos k m" for k m idx
    by (auto simp: W_def less_Suc_eq)
  have Wk: "W (Suc k) 0 idx \<longleftrightarrow> W k M idx" for k idx
    by (auto simp: W_def less_Suc_eq)
  have inner_step: "\<exists>t'. ?inner k m t = Inr t' \<and> I k (Suc m) t'"
    if "k < length sendbufs" "m < M" "I k m t" for k m t
  proof -
    from that(2) have m: "m < length (displs T)"
      by (simp add: M_def)
    from bounds [OF that(1) m] have b: "m < length (sendbufs ! k)" "pos k m < length recvbuf"
      by (simp_all add: pos_def)
    have len: "length t = length recvbuf"
      using that(3) by (simp add: I_def)
    have "?inner k m t = Inr (t[pos k m := Some (f (pos k m))])"
      using b len cons [OF that(1) m]
      by (simp add: rd_nat wro_nat pos_def del: of_nat_add of_nat_mult)
    moreover have "I k (Suc m) (t[pos k m := Some (f (pos k m))])"
      using that(3) b(2) by (auto simp: I_def Wm nth_list_update)
    ultimately show ?thesis
      by blast
  qed
  have outer_step: "\<exists>t'. for_loop 0 M (?inner k) t = Inr t' \<and> I (Suc k) 0 t'"
    if "k < length sendbufs" "I k 0 t" for k t
  proof -
    from for_loop_total [of "I k" 0 t M "?inner k"] inner_step [OF that(1)] that(2)
    obtain t' where "for_loop 0 M (?inner k) t = Inr t'" "I k M t'"
      by auto
    moreover from this(2) have "I (Suc k) 0 t'"
      by (simp add: I_def Wk)
    ultimately show ?thesis
      by blast
  qed
  have "I 0 0 recvbuf"
    by (simp add: I_def W0)
  from for_loop_total [of "\<lambda>k. I k 0" 0 recvbuf "length sendbufs"
      "\<lambda>k buf. for_loop 0 M (?inner k) buf", OF this] outer_step
  obtain buf where buf: "for_loop 0 (length sendbufs) (\<lambda>k buf. for_loop 0 M (?inner k) buf) recvbuf = Inr buf"
    and "I (length sendbufs) 0 buf"
    by auto
  from this(2) have "length buf = length recvbuf \<and>
           (\<forall>idx<length recvbuf.
              buf ! idx =
                (if \<exists>k<length sendbufs. \<exists>m<length (displs T). idx = k * extent T + displs T ! m
                 then Some (f idx) else recvbuf ! idx))"
    by (simp add: I_def W_def M_def pos_def)
  with buf show ?thesis
    by (simp add: MPI_Gather_def M_def)
qed

lemma blk_col_bound:
  fixes n p loc_n k m :: nat
  assumes "p * loc_n \<le> n" and "k < p" and "m < n * loc_n"
  shows "k * loc_n + ((m div loc_n) * n + m mod loc_n) < n * n"
proof -
  from assms(3) have pos: "0 < loc_n"
    by (cases loc_n) auto
  have i: "m div loc_n < n"
    using assms(3) by (simp add: less_mult_imp_div_less)
  have j: "m mod loc_n < loc_n"
    using pos by simp
  have "Suc k * loc_n \<le> p * loc_n"
    using assms(2) by (intro mult_le_mono1) simp
  with assms(1) j have c: "k * loc_n + m mod loc_n < n"
    by simp
  have "Suc (m div loc_n) * n \<le> n * n"
    using i by (intro mult_le_mono1) simp
  with c show ?thesis
    by simp
qed

lemma blk_col_cover:
  fixes n p loc_n idx :: nat
  assumes "n = p * loc_n" and "idx < n * n"
  shows "\<exists>k<p. \<exists>m<n * loc_n. idx = k * loc_n + ((m div loc_n) * n + m mod loc_n)"
proof -
  from assms(2) have n: "0 < n"
    by (cases n) auto
  with assms(1) have pos: "0 < loc_n"
    by (cases loc_n) auto
  define i where "i = idx div n"
  define c where "c = idx mod n"
  define k where "k = c div loc_n"
  define j where "j = c mod loc_n"
  have i: "i < n"
    using assms(2) by (simp add: i_def less_mult_imp_div_less)
  have c: "c < p * loc_n"
    using n assms(1) by (simp add: c_def)
  then have k: "k < p"
    by (simp add: k_def less_mult_imp_div_less)
  have j: "j < loc_n"
    using pos by (simp add: j_def)
  have "Suc i * loc_n \<le> n * loc_n"
    using i by (intro mult_le_mono1) simp
  with j have m: "i * loc_n + j < n * loc_n"
    by simp
  have dm: "(i * loc_n + j) div loc_n = i" "(i * loc_n + j) mod loc_n = j"
    using j by simp_all
  have "idx = i * n + c"
    by (simp add: i_def c_def)
  also have "c = k * loc_n + j"
    by (simp add: k_def j_def)
  finally have "idx = k * loc_n + (((i * loc_n + j) div loc_n) * n + (i * loc_n + j) mod loc_n)"
    unfolding dm by simp
  with k m show ?thesis
    by blast
qed

lemma Read_matrix_spec:
  assumes "p * loc_n \<le> n" and "length mat = n * n" and "int n * int n \<le> INT_MAX"
  shows "Read_matrix mat n loc_n (Build_blk_col_type n loc_n) p =
           Inr (map (\<lambda>k. map (\<lambda>m. mat ! (k * loc_n + ((m div loc_n) * n + m mod loc_n)))
                             [0..<n * loc_n]) [0..<p])"
proof -
  let ?T = "Build_blk_col_type n loc_n"
  have d: "displs ?T = map (\<lambda>m. (m div loc_n) * n + m mod loc_n) [0..<n * loc_n]"
    by (rule nth_equalityI) (simp_all add: length_displs_blk_col nth_displs_blk_col)
  have "k * extent ?T + d < length mat" if "k < p" "d \<in> set (displs ?T)" for k d
    using that blk_col_bound [OF assms(1)] assms(2) by (auto simp: d displs_blk_col(2))
  from MPI_Scatter_total [of p ?T mat, OF this]
  have "MPI_Scatter mat ?T p =
      Inr (map (\<lambda>k. map (\<lambda>d. mat ! (k * extent ?T + d)) (displs ?T)) [0..<p])"
    by blast
  also have "map (\<lambda>k. map (\<lambda>d. mat ! (k * extent ?T + d)) (displs ?T)) [0..<p] =
      map (\<lambda>k. map (\<lambda>m. mat ! (k * loc_n + ((m div loc_n) * n + m mod loc_n)))
                             [0..<n * loc_n]) [0..<p]"
    by (simp add: d displs_blk_col(2) comp_def)
  finally have sc: "MPI_Scatter mat ?T p =
      Inr (map (\<lambda>k. map (\<lambda>m. mat ! (k * loc_n + ((m div loc_n) * n + m mod loc_n)))
                             [0..<n * loc_n]) [0..<p])" .
  have "c_int (int n * int n) = Inr (int n * int n)"
    using assms(3) by (intro c_int_nonneg) simp_all
  with sc show ?thesis
    by (simp add: Read_matrix_def)
qed

lemma Read_matrix_entry:
  assumes "Read_matrix mat n loc_n (Build_blk_col_type n loc_n) p = Inr loc_mats"
    and "p * loc_n \<le> n" and "length mat = n * n"
    and "k < p" and "i < n" and "j < loc_n"
  shows "length loc_mats = p" and "length (loc_mats ! k) = n * loc_n"
    and "loc_mats ! k ! (i * loc_n + j) = mat ! (i * n + (k * loc_n + j))"
proof -
  have sz: "int n * int n \<le> INT_MAX"
    using assms(1) by (auto simp: Read_matrix_def c_int_def split: if_splits)
  from Read_matrix_spec [OF assms(2,3) sz] assms(1)
  have eq: "loc_mats = map (\<lambda>k. map (\<lambda>m. mat ! (k * loc_n + ((m div loc_n) * n + m mod loc_n)))
                             [0..<n * loc_n]) [0..<p]"
    by simp
  show "length loc_mats = p"
    by (simp add: eq)
  show "length (loc_mats ! k) = n * loc_n"
    using assms(4) by (simp add: eq)
  have "Suc i * loc_n \<le> n * loc_n"
    using assms(5) by (intro mult_le_mono1) simp
  with assms(6) have m: "i * loc_n + j < n * loc_n"
    by simp
  have dm: "(i * loc_n + j) div loc_n = i" "(i * loc_n + j) mod loc_n = j"
    using assms(6) by simp_all
  have "loc_mats ! k ! (i * loc_n + j) =
      mat ! (k * loc_n + (((i * loc_n + j) div loc_n) * n + (i * loc_n + j) mod loc_n))"
    using assms(4) m unfolding eq by (simp del: div_mult_self1 div_mult_self2 div_mult_self3 div_mult_self4 mod_mult_self1 mod_mult_self2 mod_mult_self3 mod_mult_self4)
  also have "\<dots> = mat ! (i * n + (k * loc_n + j))"
    unfolding dm by (simp add: ac_simps)
  finally show "loc_mats ! k ! (i * loc_n + j) = mat ! (i * n + (k * loc_n + j))" .
qed

lemma Gather_blk_col:
  fixes n p loc_n :: nat
  assumes "n = p * loc_n" and "length mat = n * n"
  defines "loc_mats \<equiv> map (\<lambda>k. map (\<lambda>m. mat ! (k * loc_n + ((m div loc_n) * n + m mod loc_n)))
                             [0..<n * loc_n]) [0..<p]"
  shows "MPI_Gather loc_mats (Build_blk_col_type n loc_n) (replicate (n * n) None) = Inr (map Some mat)"
proof -
  let ?T = "Build_blk_col_type n loc_n"
  have le: "p * loc_n \<le> n"
    using assms(1) by simp
  have len: "length loc_mats = p"
    by (simp add: loc_mats_def)
  have bounds: "m < length (loc_mats ! k) \<and>
      k * extent ?T + displs ?T ! m < length (replicate (n * n) (None :: int option))"
    if "k < length loc_mats" "m < length (displs ?T)" for k m
    using that blk_col_bound [OF le, of k m]
    by (simp add: loc_mats_def length_displs_blk_col nth_displs_blk_col displs_blk_col(2))
  have cons: "loc_mats ! k ! m = mat ! (k * extent ?T + displs ?T ! m)"
    if "k < length loc_mats" "m < length (displs ?T)" for k m
    using that
    by (simp add: loc_mats_def length_displs_blk_col nth_displs_blk_col displs_blk_col(2))
  from MPI_Gather_spec [of loc_mats ?T "replicate (n * n) None" "\<lambda>idx. mat ! idx", OF bounds cons]
  obtain buf where buf: "MPI_Gather loc_mats ?T (replicate (n * n) None) = Inr buf"
    and lb: "length buf = n * n"
    and nb: "\<forall>idx<n * n. buf ! idx =
        (if \<exists>k<length loc_mats. \<exists>m<length (displs ?T). idx = k * extent ?T + displs ?T ! m
         then Some (mat ! idx) else replicate (n * n) None ! idx)"
    by auto
  have "buf ! idx = Some (mat ! idx)" if "idx < n * n" for idx
  proof -
    from blk_col_cover [OF assms(1) that]
    obtain k m where "k < p" "m < n * loc_n" "idx = k * loc_n + ((m div loc_n) * n + m mod loc_n)"
      by blast
    then have "k < length loc_mats \<and> m < length (displs ?T) \<and>
        idx = k * extent ?T + displs ?T ! m"
      using len by (simp add: length_displs_blk_col nth_displs_blk_col displs_blk_col(2))
    then have "\<exists>k<length loc_mats. \<exists>m<length (displs ?T). idx = k * extent ?T + displs ?T ! m"
      by blast
    with nb that show ?thesis
      by simp
  qed
  then have "buf = map Some mat"
    using lb assms(2) by (intro nth_equalityI) simp_all
  with buf show ?thesis
    by simp
qed

lemma Print_matrix_rows:
  assumes "MPI_Gather loc_mats T (replicate (n * n) None) = Inr (map Some mat)"
    and "length mat = n * n" and "int n * int n \<le> INT_MAX"
  shows "Print_matrix loc_mats n loc_n T =
           Inr (map (\<lambda>i. map (\<lambda>j. mat ! (i * n + j)) [0..<n]) [0..<n])"
proof -
  have sz: "c_int (int n * int n) = Inr (int n * int n)"
    using assms(3) by (intro c_int_nonneg) simp_all
  have cell: "rdo (map Some mat) (int (i * n + j)) = Inr (mat ! (i * n + j))"
    if "i < n" "j < n" for i j
  proof -
    have "Suc i * n \<le> n * n"
      using that(1) by (intro mult_le_mono1) simp
    with that(2) have "i * n + j < length mat"
      using assms(2) by simp
    then show ?thesis
      by (simp add: rdo_nat del: of_nat_add of_nat_mult)
  qed
  have "all_ok (map (\<lambda>i. all_ok (map (\<lambda>j. rdo (map Some mat) (int (i * n + j))) [0..<n])) [0..<n]) =
      Inr (map (\<lambda>i. map (\<lambda>j. mat ! (i * n + j)) [0..<n]) [0..<n])"
  proof (rule all_ok_map_total)
    fix i
    assume "i \<in> set [0..<n]"
    then have i: "i < n"
      by simp
    show "all_ok (map (\<lambda>j. rdo (map Some mat) (int (i * n + j))) [0..<n]) =
        Inr (map (\<lambda>j. mat ! (i * n + j)) [0..<n])"
      by (rule all_ok_map_total) (use cell [OF i] in simp)
  qed
  with sz assms(1) show ?thesis
    by (simp add: Print_matrix_def)
qed

text \<open>
  Claim C5. For \<open>p\<close> processes, \<open>p\<close> dividing \<open>n\<close>, and a matrix of \<open>n * n\<close> entries
  (\<open>n * n\<close> within \<^verbatim>\<open>int\<close>), \<^verbatim>\<open>Read_matrix\<close> succeeds and hands rank \<open>k\<close> the columns
  \<open>k * (n div p)\<close> to \<open>(k + 1) * (n div p) - 1\<close> of every row; gathering these blocks
  with the same datatype fills the root's buffer with the original matrix, which is what
  \<^verbatim>\<open>Print_matrix\<close> prints.
\<close>

theorem gather_after_distribute:
  assumes "0 < p" and "p dvd n" and "length mat = n * n" and "int n * int n \<le> INT_MAX"
  shows "\<exists>loc_mats.
           Read_matrix mat n (n div p) (Build_blk_col_type n (n div p)) p = Inr loc_mats \<and>
           length loc_mats = p \<and>
           (\<forall>k<p. \<forall>i<n. \<forall>j<n div p.
              loc_mats ! k ! (i * (n div p) + j) = mat ! (i * n + (k * (n div p) + j))) \<and>
           MPI_Gather loc_mats (Build_blk_col_type n (n div p)) (replicate (n * n) None) =
             Inr (map Some mat) \<and>
           Print_matrix loc_mats n (n div p) (Build_blk_col_type n (n div p)) =
             Inr (map (\<lambda>i. map (\<lambda>j. mat ! (i * n + j)) [0..<n]) [0..<n])"
proof -
  define loc_n where "loc_n = n div p"
  have n: "n = p * loc_n"
    using assms(2) by (simp add: loc_n_def)
  then have le: "p * loc_n \<le> n"
    by simp
  define loc_mats where "loc_mats = map (\<lambda>k. map (\<lambda>m. mat ! (k * loc_n + ((m div loc_n) * n + m mod loc_n)))
                             [0..<n * loc_n]) [0..<p]"
  have r: "Read_matrix mat n loc_n (Build_blk_col_type n loc_n) p = Inr loc_mats"
    unfolding loc_mats_def by (rule Read_matrix_spec [OF le assms(3,4)])
  have g: "MPI_Gather loc_mats (Build_blk_col_type n loc_n) (replicate (n * n) None) =
      Inr (map Some mat)"
    unfolding loc_mats_def by (rule Gather_blk_col [OF n assms(3)])
  have "length loc_mats = p"
    by (simp add: loc_mats_def)
  moreover have "\<forall>k<p. \<forall>i<n. \<forall>j<loc_n.
      loc_mats ! k ! (i * loc_n + j) = mat ! (i * n + (k * loc_n + j))"
    using Read_matrix_entry(3) [OF r le assms(3)] by blast
  ultimately show ?thesis
    using r g Print_matrix_rows [OF g assms(3,4)] unfolding loc_n_def by blast
qed

theorem gather_after_distribute_witness:
  "Read_matrix [0, 1, 2, 3, 4, 0, 5, 6, 7, 8, 0, 9, 8, 7, 6, 0] 4 (4 div 2)
     (Build_blk_col_type 4 (4 div 2)) 2 =
     Inr [[0, 1, 4, 0, 7, 8, 8, 7], [2, 3, 5, 6, 0, 9, 6, 0]] \<and>
   Print_matrix [[0, 1, 4, 0, 7, 8, 8, 7], [2, 3, 5, 6, 0, 9, 6, 0]] 4 (4 div 2)
     (Build_blk_col_type 4 (4 div 2)) =
     Inr [[0, 1, 2, 3], [4, 0, 5, 6], [7, 8, 0, 9], [8, 7, 6, 0]]"
proof -
  let ?mat = "[0, 1, 2, 3, 4, 0, 5, 6, 7, 8, 0, 9, 8, 7, 6, 0 :: int]"
  have h: "(0::nat) < 2" "(2::nat) dvd 4" "length ?mat = 4 * 4" "int 4 * int 4 \<le> INT_MAX"
    by (simp_all add: INT_MAX_def)
  have r: "Read_matrix ?mat 4 (4 div 2) (Build_blk_col_type 4 (4 div 2)) 2 =
      Inr [[0, 1, 4, 0, 7, 8, 8, 7], [2, 3, 5, 6, 0, 9, 6, 0]]"
    by code_simp
  have rows: "map (\<lambda>i. map (\<lambda>j. ?mat ! (i * 4 + j)) [0..<4]) [0..<4] =
      [[0, 1, 2, 3], [4, 0, 5, 6], [7, 8, 0, 9], [8, 7, 6, 0]]"
    by code_simp
  from gather_after_distribute [OF h] r
  have "Print_matrix [[0, 1, 4, 0, 7, 8, 8, 7], [2, 3, 5, 6, 0, 9, 6, 0]] 4 (4 div 2)
     (Build_blk_col_type 4 (4 div 2)) = Inr (map (\<lambda>i. map (\<lambda>j. ?mat ! (i * 4 + j)) [0..<4]) [0..<4])"
    by auto
  with r rows show ?thesis
    by simp
qed

section \<open>The engine: one process, one pass\<close>

lemma relax_step:
  assumes "relax mat loc_n min_dist u v t = Inr t'"
  shows "known t' = known t" and "length (loc_dist t') = length (loc_dist t)"
    and "length (loc_pred t') = length (loc_pred t)"
    and "j \<noteq> v \<Longrightarrow> loc_dist t' ! j = loc_dist t ! j \<and> loc_pred t' ! j = loc_pred t ! j"
    and "relaxed mat loc_n min_dist u t t' v"
proof -
  from assms obtain k where k: "rd (known t) (int v) = Inr k"
    by (auto simp: relax_def split: sum.splits)
  then have kv: "k = known t ! v"
    by (simp add: rd_nat split: if_splits)
  show "known t' = known t" "length (loc_dist t') = length (loc_dist t)"
    "length (loc_pred t') = length (loc_pred t)"
    using assms k
    by (auto simp: relax_def wr_nat split: sum.splits if_splits)
  show "loc_dist t' ! j = loc_dist t ! j \<and> loc_pred t' ! j = loc_pred t ! j" if "j \<noteq> v"
    using assms k that
    by (auto simp: relax_def wr_nat split: sum.splits if_splits)
  show "relaxed mat loc_n min_dist u t t' v"
  proof (cases "k = 0")
    case False
    with assms k kv show ?thesis
      by (simp add: relax_def relaxed_def)
  next
    case True
    with assms k obtain row idx w new_dist d where
      row: "c_int (u * int loc_n) = Inr row" and idx: "c_int (row + int v) = Inr idx"
      and w: "rd mat idx = Inr w" and nd: "c_int (min_dist + w) = Inr new_dist"
      and d: "rd (loc_dist t) (int v) = Inr d"
      and res: "(if new_dist < d
                 then (case wr (loc_dist t) (int v) new_dist of Inl e \<Rightarrow> Inl e
                       | Inr ds \<Rightarrow> (case wr (loc_pred t) (int v) u of Inl e \<Rightarrow> Inl e
                           | Inr ps \<Rightarrow> Inr (t\<lparr>loc_dist := ds, loc_pred := ps\<rparr>)))
                 else Inr t) = Inr t'"
      by (auto simp: relax_def split: sum.splits)
    from row idx have idx_eq: "idx = u * int loc_n + int v"
      by (auto dest: c_int_Inr)
    from w have wb: "0 \<le> idx" "idx < int (length mat)" "w = mat ! nat idx"
      by (auto simp: rd_def split: if_splits)
    from nd have nd_eq: "new_dist = min_dist + w"
      by (auto dest: c_int_Inr)
    from d have dv: "v < length (loc_dist t)" "d = loc_dist t ! v"
      by (auto simp: rd_nat split: if_splits)
    show ?thesis
    proof (cases "new_dist < d")
      case False
      with res have "t' = t" by simp
      with False True kv wb idx_eq nd_eq dv show ?thesis
        by (simp add: relaxed_def)
    next
      case lt: True
      with res obtain ds ps where "wr (loc_dist t) (int v) new_dist = Inr ds"
        "wr (loc_pred t) (int v) u = Inr ps" "t' = t\<lparr>loc_dist := ds, loc_pred := ps\<rparr>"
        by (auto split: sum.splits)
      then have "loc_dist t' ! v = new_dist" "loc_pred t' ! v = u"
        by (auto simp: wr_nat split: if_splits)
      with lt True kv wb idx_eq nd_eq dv show ?thesis
        by (simp add: relaxed_def)
    qed
  qed
qed

lemma relax_loop_spec:
  assumes "for_loop 0 loc_n (relax mat loc_n min_dist u) s = Inr s'"
  shows "known s' = known s" and "length (loc_dist s') = length (loc_dist s)"
    and "length (loc_pred s') = length (loc_pred s)"
    and "\<forall>j<loc_n. relaxed mat loc_n min_dist u s s' j"
proof -
  define I where "I v t \<longleftrightarrow> known t = known s \<and> length (loc_dist t) = length (loc_dist s) \<and>
      length (loc_pred t) = length (loc_pred s) \<and>
      (\<forall>j<v. relaxed mat loc_n min_dist u s t j) \<and>
      (\<forall>j\<ge>v. loc_dist t ! j = loc_dist s ! j \<and> loc_pred t ! j = loc_pred s ! j)" for v t
  have init: "I 0 s"
    by (simp add: I_def)
  have step: "I (Suc v) t'" if "I v t" "relax mat loc_n min_dist u v t = Inr t'" for v t t'
  proof -
    note r = relax_step [OF that(2)]
    have "relaxed mat loc_n min_dist u s t' v"
      using r(5) that(1) by (simp add: relaxed_def I_def)
    moreover have "relaxed mat loc_n min_dist u s t' j" if "j < v" for j
    proof -
      have "relaxed mat loc_n min_dist u s t j"
        using \<open>I v t\<close> that by (simp add: I_def)
      moreover have "loc_dist t' ! j = loc_dist t ! j \<and> loc_pred t' ! j = loc_pred t ! j"
        using r(4) [of j] that by simp
      ultimately show ?thesis
        by (simp add: relaxed_def)
    qed
    moreover have "loc_dist t' ! j = loc_dist s ! j \<and> loc_pred t' ! j = loc_pred s ! j"
      if "Suc v \<le> j" for j
      using r(4) [of j] \<open>I v t\<close> that by (simp add: I_def)
    ultimately show ?thesis
      using r(1,2,3) that(1) by (auto simp: I_def less_Suc_eq)
  qed
  from for_loop_rule [of 0 loc_n _ s s' I, OF assms init] step
  have "I loc_n s'"
    by simp
  then show "known s' = known s" "length (loc_dist s') = length (loc_dist s)"
    "length (loc_pred s') = length (loc_pred s)"
    "\<forall>j<loc_n. relaxed mat loc_n min_dist u s s' j"
    by (simp_all add: I_def)
qed

lemma Dijkstra_update_spec:
  assumes "Dijkstra_update mat loc_n r (min_dist, u) s = Inr s'"
  shows "0 < loc_n"
    and "known s' = (if u sdiv int loc_n = int r then (known s)[nat (u smod int loc_n) := 1]
                     else known s)"
    and "u sdiv int loc_n = int r \<Longrightarrow>
           0 \<le> u smod int loc_n \<and> u smod int loc_n < int (length (known s))"
    and "length (loc_dist s') = length (loc_dist s)"
    and "length (loc_pred s') = length (loc_pred s)"
    and "length (known s') = length (known s)"
    and "\<forall>j<loc_n. relaxed mat loc_n min_dist u (s\<lparr>known := known s'\<rparr>) s' j"
proof -
  from assms show pos: "0 < loc_n"
    by (auto simp: Dijkstra_update_def split: if_splits)
  from assms pos obtain kn where
    kn: "(if u sdiv int loc_n = int r then wr (known s) (u smod int loc_n) 1
          else Inr (known s)) = Inr kn"
    and loop: "for_loop 0 loc_n (relax mat loc_n min_dist u) (s\<lparr>known := kn\<rparr>) = Inr s'"
    by (auto simp: Dijkstra_update_def split: sum.splits)
  note l = relax_loop_spec [OF loop]
  from l(1) have ks: "known s' = kn"
    by simp
  from kn show "known s' = (if u sdiv int loc_n = int r then (known s)[nat (u smod int loc_n) := 1]
                     else known s)"
    unfolding ks by (auto simp: wr_def split: if_splits)
  from kn show "0 \<le> u smod int loc_n \<and> u smod int loc_n < int (length (known s))"
    if "u sdiv int loc_n = int r"
    using that by (auto simp: wr_def split: if_splits)
  from l(2,3) show "length (loc_dist s') = length (loc_dist s)"
    "length (loc_pred s') = length (loc_pred s)"
    by simp_all
  from kn show "length (known s') = length (known s)"
    unfolding ks by (auto simp: wr_def split: if_splits)
  from l(4) show "\<forall>j<loc_n. relaxed mat loc_n min_dist u (s\<lparr>known := known s'\<rparr>) s' j"
    unfolding ks .
qed

lemma Dijkstra_round_spec:
  assumes "Dijkstra_round mats loc_n procs = Inr procs'"
  shows "\<exists>my_mins. length my_mins = length procs \<and>
           (\<forall>r<length procs.
              my_min (loc_dist (procs ! r)) (known (procs ! r)) loc_n r = Inr (my_mins ! r)) \<and>
           length procs' = length procs \<and>
           (\<forall>r<length procs.
              Dijkstra_update (mats ! r) loc_n r (MINLOC_reduce my_mins) (procs ! r) =
                Inr (procs' ! r))"
proof -
  from assms obtain my_mins where
    m: "all_ok (map (\<lambda>r. my_min (loc_dist (procs ! r)) (known (procs ! r)) loc_n r)
                       [0..<length procs]) = Inr my_mins"
    and u: "all_ok (map (\<lambda>r. Dijkstra_update (mats ! r) loc_n r
                                 (MPI_Allreduce_MINLOC my_mins ! r) (procs ! r))
                          [0..<length procs]) = Inr procs'"
    by (auto simp: Dijkstra_round_def Let_def split: sum.splits)
  from m have lm: "length my_mins = length procs"
    and mm: "\<forall>r<length procs.
              my_min (loc_dist (procs ! r)) (known (procs ! r)) loc_n r = Inr (my_mins ! r)"
    by (simp_all add: all_ok_map_Inr)
  from u have "length procs' = length procs"
    and "\<forall>r<length procs. Dijkstra_update (mats ! r) loc_n r
                                 (MPI_Allreduce_MINLOC my_mins ! r) (procs ! r) = Inr (procs' ! r)"
    by (simp_all add: all_ok_map_Inr)
  with lm mm show ?thesis
    by (intro exI [of _ my_mins]) (simp add: MPI_Allreduce_MINLOC_def)
qed

section \<open>The engine: one pass on the global vectors\<close>

lemma sdiv_nonneg:
  "0 \<le> u \<Longrightarrow> u sdiv int l = u div int l"
  "0 \<le> u \<Longrightarrow> u smod int l = u mod int l"
  by (cases "l = 0"; simp add: signed_divide_int_def signed_modulo_int_def sgn_if)+

lemma vertex_split:
  fixes n p loc_n v :: nat
  assumes "n = p * loc_n" and "v < n"
  shows "v div loc_n < p" and "v mod loc_n < loc_n" and "0 < loc_n"
proof -
  from assms show pos: "0 < loc_n"
    by (cases loc_n) auto
  then show "v mod loc_n < loc_n"
    by simp
  from assms show "v div loc_n < p"
    by (simp add: less_mult_imp_div_less)
qed

lemma vertex_join:
  fixes p loc_n r j :: nat
  assumes "r < p" and "j < loc_n"
  shows "r * loc_n + j < p * loc_n" and "(r * loc_n + j) div loc_n = r"
    and "(r * loc_n + j) mod loc_n = j"
proof -
  have "Suc r * loc_n \<le> p * loc_n"
    using assms(1) by (intro mult_le_mono1) simp
  with assms(2) show "r * loc_n + j < p * loc_n"
    by simp
  show "(r * loc_n + j) div loc_n = r" "(r * loc_n + j) mod loc_n = j"
    using assms(2) by simp_all
qed

lemma owner_iff:
  assumes "0 \<le> u" and "0 < loc_n"
  shows "u sdiv int loc_n = int (v div loc_n) \<and> nat (u smod int loc_n) = v mod loc_n \<longleftrightarrow>
         u = int v"
proof -
  obtain w where w: "u = int w"
    using assms(1) by (metis nonneg_int_cases)
  have "w div loc_n = v div loc_n \<and> w mod loc_n = v mod loc_n \<longleftrightarrow> w = v"
    by (metis div_mult_mod_eq)
  then show ?thesis
    unfolding w sdiv_nonneg [OF of_nat_0_le_iff]
    by (simp add: zdiv_int [symmetric] zmod_int [symmetric] del: of_nat_div of_nat_mod)
qed

lemma MINLOC_reduce_nth:
  assumes "cs \<noteq> []"
  obtains r where "r < length cs" and "MINLOC_reduce cs = cs ! r"
  using MINLOC_reduce_least(1) [OF assms] by (auto simp: in_set_conv_nth)

lemma my_min_global:
  assumes mm: "my_min (loc_dist s) (known s) loc_n r = Inr g"
    and len: "length (loc_dist s) = loc_n" "length (known s) = loc_n"
    and small: "int loc_n \<le> INFINITY" "(int r + 1) * int loc_n \<le> INT_MAX"
  shows "(g = (INFINITY, INFINITY) \<and>
          (\<forall>v<loc_n. known s ! v = 0 \<longrightarrow> INFINITY \<le> loc_dist s ! v)) \<or>
         (\<exists>j<loc_n. g = (loc_dist s ! j, int (r * loc_n + j)) \<and> known s ! j = 0 \<and>
            loc_dist s ! j < INFINITY \<and>
            (\<forall>v<loc_n. known s ! v = 0 \<longrightarrow> loc_dist s ! j \<le> loc_dist s ! v) \<and>
            (\<forall>v<j. known s ! v = 0 \<longrightarrow> loc_dist s ! j < loc_dist s ! v))"
proof -
  from my_min_spec [of loc_n "loc_dist s" "known s" r] len small
  obtain d g' where eq: "my_min (loc_dist s) (known s) loc_n r = Inr (d, g')"
    and sp: "if \<exists>v<loc_n. known s ! v = 0 \<and> loc_dist s ! v < INFINITY
        then \<exists>u<loc_n. known s ! u = 0 \<and> d = loc_dist s ! u \<and> d < INFINITY \<and>
               g' = int u + int r * int loc_n \<and>
               (\<forall>v<loc_n. known s ! v = 0 \<longrightarrow> d \<le> loc_dist s ! v) \<and>
               (\<forall>v<u. known s ! v = 0 \<longrightarrow> d < loc_dist s ! v)
        else d = INFINITY \<and> g' = INFINITY"
    by auto
  from eq mm have g: "g = (d, g')"
    by simp
  show ?thesis
  proof (cases "\<exists>v<loc_n. known s ! v = 0 \<and> loc_dist s ! v < INFINITY")
    case False
    with sp g have "g = (INFINITY, INFINITY)"
      by simp
    moreover from False have "\<forall>v<loc_n. known s ! v = 0 \<longrightarrow> INFINITY \<le> loc_dist s ! v"
      by (meson not_le)
    ultimately show ?thesis
      by blast
  next
    case True
    with sp obtain u where u: "u < loc_n" "known s ! u = 0" "d = loc_dist s ! u"
      "d < INFINITY" "g' = int u + int r * int loc_n"
      "\<forall>v<loc_n. known s ! v = 0 \<longrightarrow> d \<le> loc_dist s ! v"
      "\<forall>v<u. known s ! v = 0 \<longrightarrow> d < loc_dist s ! v"
      by auto
    then have "u < loc_n \<and> g = (loc_dist s ! u, int (r * loc_n + u)) \<and> known s ! u = 0 \<and>
        loc_dist s ! u < INFINITY \<and>
        (\<forall>v<loc_n. known s ! v = 0 \<longrightarrow> loc_dist s ! u \<le> loc_dist s ! v) \<and>
        (\<forall>v<u. known s ! v = 0 \<longrightarrow> loc_dist s ! u < loc_dist s ! v)"
      using g by simp
    then show ?thesis
      by blast
  qed
qed

lemma MINLOC_selection:
  assumes lm: "length my_mins = p"
    and mm: "\<And>r. r < p \<Longrightarrow>
        my_min (loc_dist (procs ! r)) (known (procs ! r)) loc_n r = Inr (my_mins ! r)"
    and wf: "wf_procs loc_n p procs"
    and n: "n = p * loc_n" "0 < p" "int n \<le> INFINITY"
  shows "round_sel procs loc_n n (fst (MINLOC_reduce my_mins)) (snd (MINLOC_reduce my_mins))"
proof -
  define min_dist where "min_dist = fst (MINLOC_reduce my_mins)"
  define u where "u = snd (MINLOC_reduce my_mins)"
  have g: "MINLOC_reduce my_mins = (min_dist, u)"
    by (simp add: min_dist_def u_def)
  have small: "int loc_n \<le> INFINITY" "(int r + 1) * int loc_n \<le> INT_MAX" if "r < p" for r
  proof -
    have "Suc r * loc_n \<le> p * loc_n"
      using that by (intro mult_le_mono1) simp
    then have "int (Suc r * loc_n) \<le> int (p * loc_n)"
      by (simp only: of_nat_le_iff)
    moreover have "int (Suc r * loc_n) = (int r + 1) * int loc_n"
      by (simp add: algebra_simps)
    ultimately have a: "(int r + 1) * int loc_n \<le> int n"
      using n(1) by simp
    have "int loc_n \<le> (int r + 1) * int loc_n"
      by (simp add: algebra_simps)
    with a n(3) show "int loc_n \<le> INFINITY"
      by linarith
    from a n(3) show "(int r + 1) * int loc_n \<le> INT_MAX"
      by (simp add: INFINITY_def INT_MAX_def)
  qed
  have wfr: "length (loc_dist (procs ! r)) = loc_n" "length (loc_pred (procs ! r)) = loc_n"
    "length (known (procs ! r)) = loc_n" if "r < p" for r
    using wf that by (simp_all add: wf_procs_def)
  have ne: "my_mins \<noteq> []"
    using lm n(2) by auto
  note least = MINLOC_reduce_least [OF ne, unfolded g]
  have rank: "(my_mins ! r = (INFINITY, INFINITY) \<and>
        (\<forall>v<loc_n. known (procs ! r) ! v = 0 \<longrightarrow> INFINITY \<le> loc_dist (procs ! r) ! v)) \<or>
      (\<exists>j<loc_n. my_mins ! r = (loc_dist (procs ! r) ! j, int (r * loc_n + j)) \<and>
         known (procs ! r) ! j = 0 \<and> loc_dist (procs ! r) ! j < INFINITY \<and>
         (\<forall>v<loc_n. known (procs ! r) ! v = 0 \<longrightarrow>
            loc_dist (procs ! r) ! j \<le> loc_dist (procs ! r) ! v) \<and>
         (\<forall>v<j. known (procs ! r) ! v = 0 \<longrightarrow>
            loc_dist (procs ! r) ! j < loc_dist (procs ! r) ! v))"
    if "r < p" for r
    using my_min_global [OF mm [OF that] wfr(1,3) [OF that] small [OF that]] .
  have le_all: "lexle (min_dist, u) (my_mins ! r)" if "r < p" for r
    using least(2) that lm by simp
  obtain r0 where r0: "r0 < p" "(min_dist, u) = my_mins ! r0"
    using least(1) lm by (auto simp: in_set_conv_nth)
  have full: "round_sel procs loc_n n min_dist u"
  proof -
    from rank [OF r0(1)] show ?thesis
    proof (elim disjE conjE exE)
      assume s: "my_mins ! r0 = (INFINITY, INFINITY)"
      have "INFINITY \<le> gdist procs loc_n v" if v: "v < n" "gknown procs loc_n v = 0" for v
      proof -
        note vs = vertex_split [OF n(1) v(1)]
        from rank [OF vs(1)] show ?thesis
        proof (elim disjE conjE exE)
          assume "\<forall>w<loc_n. known (procs ! (v div loc_n)) ! w = 0 \<longrightarrow>
              INFINITY \<le> loc_dist (procs ! (v div loc_n)) ! w"
          with vs(2) v(2) show ?thesis
            by (simp add: gdist_def gknown_def)
        next
          fix j
          assume "my_mins ! (v div loc_n) =
              (loc_dist (procs ! (v div loc_n)) ! j, int (v div loc_n * loc_n + j))"
            "loc_dist (procs ! (v div loc_n)) ! j < INFINITY"
          with le_all [OF vs(1)] r0(2) s show ?thesis
            by (simp add: lexle_def)
        qed
      qed
      with r0(2) s show ?thesis
        by (simp add: round_sel_def)
    next
      fix j0
      assume j0: "j0 < loc_n"
        and s: "my_mins ! r0 = (loc_dist (procs ! r0) ! j0, int (r0 * loc_n + j0))"
        and k0: "known (procs ! r0) ! j0 = 0"
        and fin: "loc_dist (procs ! r0) ! j0 < INFINITY"
      define uv where "uv = r0 * loc_n + j0"
      note vj = vertex_join [OF r0(1) j0]
      have uvn: "uv < n"
        using vj(1) n(1) by (simp add: uv_def)
      have md: "min_dist = gdist procs loc_n uv" and uu: "u = int uv"
        using r0(2) s vj(2,3) by (simp_all add: uv_def gdist_def)
      have ku: "gknown procs loc_n uv = 0"
        using k0 vj(2,3) by (simp add: uv_def gknown_def)
      have lt: "min_dist < INFINITY"
        using r0(2) s fin by simp
      have cmp: "min_dist \<le> gdist procs loc_n v \<and> (v < uv \<longrightarrow> min_dist < gdist procs loc_n v)"
        if v: "v < n" "gknown procs loc_n v = 0" for v
      proof -
        note vs = vertex_split [OF n(1) v(1)]
        let ?r = "v div loc_n" and ?j = "v mod loc_n"
        have vv: "v = ?r * loc_n + ?j"
          by simp
        from rank [OF vs(1)] show ?thesis
        proof (elim disjE conjE exE)
          assume "\<forall>w<loc_n. known (procs ! ?r) ! w = 0 \<longrightarrow> INFINITY \<le> loc_dist (procs ! ?r) ! w"
          with vs(2) v(2) have "INFINITY \<le> gdist procs loc_n v"
            by (simp add: gdist_def gknown_def)
          with lt show ?thesis
            by simp
        next
          fix j
          assume j: "j < loc_n"
            and e: "my_mins ! ?r = (loc_dist (procs ! ?r) ! j, int (?r * loc_n + j))"
            and mn: "\<forall>w<loc_n. known (procs ! ?r) ! w = 0 \<longrightarrow>
                loc_dist (procs ! ?r) ! j \<le> loc_dist (procs ! ?r) ! w"
            and tb: "\<forall>w<j. known (procs ! ?r) ! w = 0 \<longrightarrow>
                loc_dist (procs ! ?r) ! j < loc_dist (procs ! ?r) ! w"
          from le_all [OF vs(1)] e
          have lx: "min_dist < loc_dist (procs ! ?r) ! j \<or>
              (min_dist = loc_dist (procs ! ?r) ! j \<and> u \<le> int (?r * loc_n + j))"
            by (simp add: lexle_def)
          from mn vs(2) v(2) have dj: "loc_dist (procs ! ?r) ! j \<le> gdist procs loc_n v"
            by (simp add: gdist_def gknown_def)
          from lx dj have a: "min_dist \<le> gdist procs loc_n v"
            by auto
          have b: "min_dist < gdist procs loc_n v" if "v < uv"
          proof (rule ccontr)
            assume "\<not> min_dist < gdist procs loc_n v"
            with a have eq: "gdist procs loc_n v = min_dist"
              by simp
            with lx dj have eqj: "min_dist = loc_dist (procs ! ?r) ! j"
              and ule: "u \<le> int (?r * loc_n + j)"
              by auto
            have "\<not> ?j < j"
              using tb v(2) eq eqj by (auto simp: gdist_def gknown_def)
            then have "?r * loc_n + j \<le> v"
              using vv by linarith
            moreover from ule uu have "uv \<le> ?r * loc_n + j"
              by (simp only: of_nat_le_iff)
            ultimately show False
              using that by linarith
          qed
          from a b show ?thesis
            by blast
        qed
      qed
      have "least_unknown procs loc_n n uv"
        unfolding least_unknown_def using uvn ku cmp md by auto
      with uu md lt show ?thesis
        unfolding round_sel_def by blast
    qed
  qed
  show ?thesis
    using full unfolding min_dist_def u_def .
qed

lemma round_global:
  assumes round: "Dijkstra_round mats loc_n procs = Inr procs'"
    and wf: "wf_procs loc_n p procs"
    and mats: "length mats = p" "\<forall>r<p. length (mats ! r) = n * loc_n"
    and n: "n = p * loc_n" "0 < p" "int n \<le> INFINITY"
  shows "wf_procs loc_n p procs' \<and>
         (\<exists>min_dist u. round_step mats loc_n n procs procs' min_dist u \<and>
            round_sel procs loc_n n min_dist u)"
proof -
  from wf have lp: "length procs = p"
    by (simp add: wf_procs_def)
  from Dijkstra_round_spec [OF round] lp obtain my_mins where
    lm: "length my_mins = p"
    and mm: "\<And>r. r < p \<Longrightarrow>
        my_min (loc_dist (procs ! r)) (known (procs ! r)) loc_n r = Inr (my_mins ! r)"
    and lp': "length procs' = p"
    and up: "\<And>r. r < p \<Longrightarrow>
        Dijkstra_update (mats ! r) loc_n r (MINLOC_reduce my_mins) (procs ! r) = Inr (procs' ! r)"
    by auto
  define min_dist where "min_dist = fst (MINLOC_reduce my_mins)"
  define u where "u = snd (MINLOC_reduce my_mins)"
  have g: "MINLOC_reduce my_mins = (min_dist, u)"
    by (simp add: min_dist_def u_def)
  note us = Dijkstra_update_spec [OF up [unfolded g]]
  have pos: "0 < loc_n"
    using us(1) [of 0] n(2) by simp
  have small: "int loc_n \<le> INFINITY" "(int r + 1) * int loc_n \<le> INT_MAX" if "r < p" for r
  proof -
    have "Suc r * loc_n \<le> p * loc_n"
      using that by (intro mult_le_mono1) simp
    then have "int (Suc r * loc_n) \<le> int (p * loc_n)"
      by (simp only: of_nat_le_iff)
    moreover have "int (Suc r * loc_n) = (int r + 1) * int loc_n"
      by (simp add: algebra_simps)
    ultimately have a: "(int r + 1) * int loc_n \<le> int n"
      using n(1) by simp
    have "int loc_n \<le> (int r + 1) * int loc_n"
      by (simp add: algebra_simps)
    with a n(3) show "int loc_n \<le> INFINITY"
      by linarith
    from a n(3) show "(int r + 1) * int loc_n \<le> INT_MAX"
      by (simp add: INFINITY_def INT_MAX_def)
  qed
  have wfr: "length (loc_dist (procs ! r)) = loc_n" "length (loc_pred (procs ! r)) = loc_n"
    "length (known (procs ! r)) = loc_n" if "r < p" for r
    using wf that by (simp_all add: wf_procs_def)
  have wf': "wf_procs loc_n p procs'"
    using lp' us(4,5,6) wfr by (simp add: wf_procs_def)
  have full: "round_sel procs loc_n n min_dist u"
    using MINLOC_selection [OF lm mm wf n] by (simp add: min_dist_def u_def)
  then have sel: "(u = INFINITY \<and> min_dist = INFINITY) \<or>
      (\<exists>uv<n. u = int uv \<and> min_dist = gdist procs loc_n uv \<and> gknown procs loc_n uv = 0)"
    unfolding round_sel_def least_unknown_def by blast
  then have u0: "0 \<le> u"
    by (auto simp: INFINITY_def)
  have kn: "gknown procs' loc_n v = (if int v = u then 1 else gknown procs loc_n v)"
    if "v < n" for v
  proof -
    note vs = vertex_split [OF n(1) that]
    have len: "v mod loc_n < length (known (procs ! (v div loc_n)))"
      using wfr(3) [OF vs(1)] vs(2) by simp
    show ?thesis
    proof (cases "u sdiv int loc_n = int (v div loc_n)")
      case False
      with owner_iff [OF u0 pos, of v] have "int v \<noteq> u"
        by auto
      with False us(2) [OF vs(1)] show ?thesis
        by (simp add: gknown_def)
    next
      case True
      with us(2) [OF vs(1)]
      have "gknown procs' loc_n v =
          (known (procs ! (v div loc_n)))[nat (u smod int loc_n) := 1] ! (v mod loc_n)"
        by (simp add: gknown_def)
      also have "\<dots> = (if nat (u smod int loc_n) = v mod loc_n then 1
                         else gknown procs loc_n v)"
        using len by (simp add: nth_list_update gknown_def)
      also have "\<dots> = (if int v = u then 1 else gknown procs loc_n v)"
        using owner_iff [OF u0 pos, of v] True by auto
      finally show ?thesis .
    qed
  qed
  have rel: "relaxed (mats ! (v div loc_n)) loc_n min_dist u
               ((procs ! (v div loc_n))\<lparr>known := known (procs' ! (v div loc_n))\<rparr>)
               (procs' ! (v div loc_n)) (v mod loc_n)"
    if "v < n" for v
    using us(7) [OF vertex_split(1) [OF n(1) that]] vertex_split(2) [OF n(1) that] by blast
  have same: "gdist procs' loc_n v = gdist procs loc_n v \<and> gpred procs' loc_n v = gpred procs loc_n v"
    if "v < n" "gknown procs' loc_n v \<noteq> 0" for v
    using rel [OF that(1)] that(2) by (simp add: relaxed_def gknown_def gdist_def gpred_def)
  have rlx: "0 \<le> u \<and> u < int n \<and>
        (if min_dist + gmat mats loc_n (nat u) v < gdist procs loc_n v
         then gdist procs' loc_n v = min_dist + gmat mats loc_n (nat u) v \<and>
              gpred procs' loc_n v = u
         else gdist procs' loc_n v = gdist procs loc_n v \<and>
              gpred procs' loc_n v = gpred procs loc_n v)"
    if "v < n" "gknown procs' loc_n v = 0" for v
  proof -
    note vs = vertex_split [OF n(1) that(1)]
    let ?r = "v div loc_n" and ?j = "v mod loc_n"
    from rel [OF that(1)] that(2)
    have b: "u * int loc_n + int ?j < int (length (mats ! ?r))"
      and c: "if min_dist + mats ! ?r ! nat (u * int loc_n + int ?j) < loc_dist (procs ! ?r) ! ?j
          then loc_dist (procs' ! ?r) ! ?j = min_dist + mats ! ?r ! nat (u * int loc_n + int ?j) \<and>
               loc_pred (procs' ! ?r) ! ?j = u
          else loc_dist (procs' ! ?r) ! ?j = loc_dist (procs ! ?r) ! ?j \<and>
               loc_pred (procs' ! ?r) ! ?j = loc_pred (procs ! ?r) ! ?j"
      by (simp_all add: relaxed_def gknown_def)
    from b mats(2) vs(1) have "u * int loc_n + int ?j < int n * int loc_n"
      by simp
    then have "u * int loc_n < int n * int loc_n"
      by linarith
    then have un: "u < int n"
      using pos by simp
    have "nat (u * int loc_n + int ?j) = nat u * loc_n + ?j"
      using u0 by (simp add: nat_add_distrib nat_mult_distrib)
    with c have "if min_dist + gmat mats loc_n (nat u) v < gdist procs loc_n v
         then gdist procs' loc_n v = min_dist + gmat mats loc_n (nat u) v \<and>
              gpred procs' loc_n v = u
         else gdist procs' loc_n v = gdist procs loc_n v \<and>
              gpred procs' loc_n v = gpred procs loc_n v"
      by (simp add: gmat_def gdist_def gpred_def)
    with u0 un show ?thesis
      by blast
  qed
  have "round_step mats loc_n n procs procs' min_dist u"
    unfolding round_step_def using sel kn same rlx by blast
  with wf' full show ?thesis
    by blast
qed

section \<open>The engine: the start and the passes\<close>

lemma Dijkstra_init_spec:
  assumes "Dijkstra_init mat loc_n r = Inr s"
  shows "length (loc_dist s) = loc_n" and "length (loc_pred s) = loc_n"
    and "length (known s) = loc_n"
    and "\<forall>j<loc_n. loc_dist s ! j = mat ! j \<and> loc_pred s ! j = 0 \<and>
           known s ! j = (if r = 0 \<and> j = 0 then 1 else 0)"
    and "r = 0 \<Longrightarrow> 0 < loc_n"
proof -
  from assms obtain d kn where
    d: "all_ok (map (\<lambda>v. rd mat (int (0 * loc_n + v))) [0..<loc_n]) = Inr d"
    and kn: "(if r = 0 then wr (replicate loc_n 0) 0 1 else Inr (replicate loc_n 0)) = Inr kn"
    and s: "s = \<lparr>loc_dist = d, loc_pred = replicate loc_n 0, known = kn\<rparr>"
    by (auto simp: Dijkstra_init_def split: sum.splits)
  from d have ld: "length d = loc_n" and dj: "\<forall>j<loc_n. rd mat (int j) = Inr (d ! j)"
    by (simp_all add: all_ok_map_Inr)
  from dj have dv: "\<forall>j<loc_n. d ! j = mat ! j"
    by (auto simp: rd_nat split: if_splits)
  from kn have k: "kn = (if r = 0 then (replicate loc_n 0)[0 := 1] else replicate loc_n 0)"
    and pos: "r = 0 \<longrightarrow> 0 < loc_n"
    by (auto simp: wr_def split: if_splits)
  show "length (loc_dist s) = loc_n" "length (loc_pred s) = loc_n" "length (known s) = loc_n"
    by (simp_all add: s ld k)
  show "\<forall>j<loc_n. loc_dist s ! j = mat ! j \<and> loc_pred s ! j = 0 \<and>
           known s ! j = (if r = 0 \<and> j = 0 then 1 else 0)"
    using dv by (auto simp: s k nth_list_update)
  show "0 < loc_n" if "r = 0"
    using pos that by simp
qed

lemma Dijkstra_start_spec:
  assumes "Dijkstra_start mats loc_n = Inr procs" and "length mats = p"
    and "n = p * loc_n" and "0 < p"
  shows "wf_procs loc_n p procs" and "0 < loc_n"
    and "\<forall>v<n. gdist procs loc_n v = gmat mats loc_n 0 v \<and> gpred procs loc_n v = 0 \<and>
           gknown procs loc_n v = (if v = 0 then 1 else 0)"
proof -
  from assms(1,2) have lp: "length procs = p"
    and init: "\<And>r. r < p \<Longrightarrow> Dijkstra_init (mats ! r) loc_n r = Inr (procs ! r)"
    by (simp_all add: Dijkstra_start_def all_ok_map_Inr)
  note ini = Dijkstra_init_spec [OF init]
  show "wf_procs loc_n p procs"
    using lp ini(1,2,3) by (simp add: wf_procs_def)
  show pos: "0 < loc_n"
    using ini(5) [of 0] assms(4) by simp
  show "\<forall>v<n. gdist procs loc_n v = gmat mats loc_n 0 v \<and> gpred procs loc_n v = 0 \<and>
           gknown procs loc_n v = (if v = 0 then 1 else 0)"
  proof (intro allI impI)
    fix v
    assume v: "v < n"
    note vs = vertex_split [OF assms(3) v]
    have "v = 0 \<longleftrightarrow> v div loc_n = 0 \<and> v mod loc_n = 0"
      using pos by (auto simp: div_eq_0_iff)
    with ini(4) [OF vs(1)] vs(2)
    show "gdist procs loc_n v = gmat mats loc_n 0 v \<and> gpred procs loc_n v = 0 \<and>
           gknown procs loc_n v = (if v = 0 then 1 else 0)"
      by (simp add: gdist_def gpred_def gknown_def gmat_def)
  qed
qed

lemma for_loop_split:
  assumes "a \<le> b" and "b \<le> c"
  shows "for_loop a c body s =
           (case for_loop a b body s of Inl e \<Rightarrow> Inl e | Inr t \<Rightarrow> for_loop b c body t)"
  using assms
proof (induction a c body s rule: for_loop.induct)
  case (1 i n body s)
  show ?case
  proof (cases "i < b")
    case False
    with "1.prems" have "i = b" by simp
    then show ?thesis
      by (simp add: for_loop_done [of b b])
  next
    case True
    with "1.prems" have lt: "i < n" by simp
    show ?thesis
    proof (cases "body i s")
      case (Inl e)
      with True lt show ?thesis
        by (simp add: for_loop_step)
    next
      case (Inr t)
      from "1.IH" [OF lt Inr] True "1.prems" Inr lt show ?thesis
        by (simp add: for_loop_step)
    qed
  qed
qed

lemma Dijkstra_upto_n:
  "Dijkstra mats loc_n n = Dijkstra_upto mats loc_n n"
  by (simp add: Dijkstra_def Dijkstra_upto_def)

lemma Dijkstra_upto_Suc:
  assumes "Dijkstra_upto mats loc_n (Suc i) = Inr procs'" and "1 \<le> i"
  shows "\<exists>procs. Dijkstra_upto mats loc_n i = Inr procs \<and>
           Dijkstra_round mats loc_n procs = Inr procs'"
proof -
  from assms(1) obtain procs0 where s: "Dijkstra_start mats loc_n = Inr procs0"
    and l: "for_loop 1 (Suc i) (\<lambda>i. Dijkstra_round mats loc_n) procs0 = Inr procs'"
    by (auto simp: Dijkstra_upto_def split: sum.splits)
  from l for_loop_split [of 1 i "Suc i" "\<lambda>i. Dijkstra_round mats loc_n" procs0] assms(2)
  obtain procs where "for_loop 1 i (\<lambda>i. Dijkstra_round mats loc_n) procs0 = Inr procs"
    and "for_loop i (Suc i) (\<lambda>i. Dijkstra_round mats loc_n) procs = Inr procs'"
    by (auto split: sum.splits)
  then show ?thesis
    using s by (auto simp: Dijkstra_upto_def for_loop_step for_loop_done split: sum.splits)
qed

lemma Dijkstra_upto_prefix:
  assumes "Dijkstra_upto mats loc_n n = Inr procs'" and "1 \<le> i" and "i \<le> n"
  shows "\<exists>procs. Dijkstra_upto mats loc_n i = Inr procs"
proof -
  from assms(1) obtain procs0 where s: "Dijkstra_start mats loc_n = Inr procs0"
    and l: "for_loop 1 n (\<lambda>i. Dijkstra_round mats loc_n) procs0 = Inr procs'"
    by (auto simp: Dijkstra_upto_def split: sum.splits)
  from l for_loop_split [of 1 i n "\<lambda>i. Dijkstra_round mats loc_n" procs0] assms(2,3)
  obtain procs where "for_loop 1 i (\<lambda>i. Dijkstra_round mats loc_n) procs0 = Inr procs"
    by (auto split: sum.splits)
  then show ?thesis
    using s by (simp add: Dijkstra_upto_def)
qed

section \<open>The engine: the invariant of the main loop\<close>

lemma reach_cong:
  assumes "reach P n w k" and "K w"
    and eq: "\<And>x. x < n \<Longrightarrow> K x \<Longrightarrow> P' x = P x"
    and kp: "\<And>x. x < n \<Longrightarrow> K (nat (P x))"
  shows "reach P' n w k"
  using assms(1,2)
proof (induction rule: reach.induct)
  case reach_source
  then show ?case
    by (simp add: reach.reach_source)
next
  case (reach_step v k)
  have "P' v = P v"
    using eq reach_step.hyps(2) reach_step.prems by simp
  moreover have "reach P' n (nat (P v)) k"
    using reach_step.IH kp [OF reach_step.hyps(2)] by simp
  ultimately show ?case
    using reach_step.hyps(1,2,3) by (simp add: reach.reach_step)
qed

lemma ginv_round:
  assumes rs: "round_step mats loc_n n procs procs' min_dist u"
    and small: "int n \<le> INFINITY" and n0: "0 < n"
    and inv: "ginv mats loc_n n i procs"
  shows "ginv mats loc_n n (Suc i) procs'"
proof -
  define K where "K v \<longleftrightarrow> gknown procs loc_n v \<noteq> 0" for v
  define K' where "K' v \<longleftrightarrow> gknown procs' loc_n v \<noteq> 0" for v
  define P where "P = gpred procs loc_n"
  define P' where "P' = gpred procs' loc_n"
  define D where "D = gdist procs loc_n"
  define D' where "D' = gdist procs' loc_n"
  define M where "M = gmat mats loc_n"
  define S where "S w = (if w = 0 then 0 else D w)" for w :: nat
  define S' where "S' w = (if w = 0 then 0 else D' w)" for w :: nat
  from rs have sel: "(u = INFINITY \<and> min_dist = INFINITY) \<or>
      (\<exists>uv<n. u = int uv \<and> min_dist = D uv \<and> \<not> K uv)"
    and kn: "\<And>v. v < n \<Longrightarrow> K' v \<longleftrightarrow> int v = u \<or> K v"
    and same: "\<And>v. v < n \<Longrightarrow> K' v \<Longrightarrow> D' v = D v \<and> P' v = P v"
    and rlx: "\<And>v. v < n \<Longrightarrow> \<not> K' v \<Longrightarrow> 0 \<le> u \<and> u < int n \<and>
        (if min_dist + M (nat u) v < D v then D' v = min_dist + M (nat u) v \<and> P' v = u
         else D' v = D v \<and> P' v = P v)"
    unfolding round_step_def K_def K'_def P_def P'_def D_def D'_def M_def by auto
  from inv have k0: "K 0"
    and pr: "\<And>v. v < n \<Longrightarrow> 0 \<le> P v \<and> P v < int n \<and> K (nat (P v))"
    and c7: "\<And>v. v < n \<Longrightarrow> v \<noteq> 0 \<Longrightarrow> D v = S (nat (P v)) + M (nat (P v)) v"
    and c8k: "\<And>v. v < n \<Longrightarrow> K v \<Longrightarrow> \<exists>k<i. reach P n v k"
    and c10: "min n i \<le> card {v. v < n \<and> K v}"
    unfolding ginv_def K_def P_def D_def M_def S_def sdist_def by auto
  have mono: "K' v" if "v < n" "K v" for v
    using kn that by simp
  have real_u: "\<exists>uv<n. u = int uv \<and> min_dist = D uv \<and> \<not> K uv \<and> K' uv \<and> uv \<noteq> 0"
    if "v < n" "\<not> K' v" for v
  proof -
    from rlx [OF that] small have "u \<noteq> INFINITY"
      by auto
    with sel obtain uv where uv: "uv < n" "u = int uv" "min_dist = D uv" "\<not> K uv"
      by auto
    then have "K' uv"
      using kn by simp
    moreover have "uv \<noteq> 0"
      using uv(4) k0 by metis
    ultimately show ?thesis
      using uv by blast
  qed
  have k0': "K' 0"
    using mono [OF n0 k0] .
  have pr': "0 \<le> P' v \<and> P' v < int n \<and> K' (nat (P' v))" if "v < n" for v
  proof (cases "K' v")
    case True
    with same [OF that] pr [OF that] mono show ?thesis
      by (simp add: nat_less_iff)
  next
    case False
    from real_u [OF that False] obtain uv where uv: "uv < n" "u = int uv" "K' uv"
      by blast
    from rlx [OF that False] have "P' v = u \<or> P' v = P v"
      by (auto split: if_splits)
    then show ?thesis
    proof
      assume "P' v = u"
      with uv show ?thesis by simp
    next
      assume "P' v = P v"
      with pr [OF that] mono show ?thesis
        by (simp add: nat_less_iff)
    qed
  qed
  have S_same: "S' w = S w" if "w < n" "K' w" for w
    using same [OF that] by (simp add: S_def S'_def)
  have c7': "D' v = S' (nat (P' v)) + M (nat (P' v)) v" if "v < n" "v \<noteq> 0" for v
  proof -
    have old: "D' v = S' (nat (P' v)) + M (nat (P' v)) v" if e: "D' v = D v" "P' v = P v"
    proof -
      from pr [OF \<open>v < n\<close>] have "nat (P v) < n" "K' (nat (P v))"
        using mono by (simp_all add: nat_less_iff)
      then have "S' (nat (P v)) = S (nat (P v))"
        by (rule S_same)
      with c7 [OF \<open>v < n\<close> \<open>v \<noteq> 0\<close>] e show ?thesis
        by simp
    qed
    show ?thesis
    proof (cases "K' v")
      case True
      with same [OF that(1)] old show ?thesis
        by simp
    next
      case False
      from real_u [OF that(1) False] obtain uv where
        uv: "uv < n" "u = int uv" "min_dist = D uv" "K' uv" "uv \<noteq> 0"
        by blast
      show ?thesis
      proof (cases "min_dist + M (nat u) v < D v")
        case False
        with rlx [OF that(1) \<open>\<not> K' v\<close>] old show ?thesis
          by simp
      next
        case True
        with rlx [OF that(1) \<open>\<not> K' v\<close>]
        have "D' v = min_dist + M (nat u) v" "P' v = u"
          by simp_all
        moreover have "S' uv = D uv"
          using S_same [OF uv(1,4)] uv(5) by (simp add: S_def)
        ultimately show ?thesis
          using uv(2,3) by simp
      qed
    qed
  qed
  have c8k': "\<exists>k<Suc i. reach P' n v k" if "v < n" "K' v" for v
  proof (cases "K v")
    case True
    from c8k [OF that(1) True] obtain k where "k < i" "reach P n v k"
      by blast
    from reach_cong [of P n v k K P', OF this(2) True] same mono pr this(1)
    show ?thesis
      by (metis less_Suc_eq)
  next
    case False
    with k0 have v0: "0 < v"
      by (cases v) auto
    from pr [OF that(1)] have b: "0 \<le> P v" "nat (P v) < n" "K (nat (P v))"
      by (simp_all add: nat_less_iff)
    from c8k [OF b(2,3)] obtain k where k: "k < i" "reach P n (nat (P v)) k"
      by blast
    have "reach P' n (nat (P v)) k"
      using reach_cong [of P n "nat (P v)" k K P', OF k(2) b(3)] same mono pr by metis
    moreover have "P' v = P v"
      using same [OF that] by simp
    ultimately have "reach P' n v (Suc k)"
      using v0 that(1) b(1) by (simp add: reach.reach_step)
    with k(1) show ?thesis
      by (metis Suc_less_eq)
  qed
  have c8': "\<exists>k\<le>Suc i. reach P' n v k" if "v < n" for v
  proof (cases "K' v")
    case True
    from c8k' [OF that True] show ?thesis
      by (metis less_imp_le)
  next
    case False
    with k0' have v0: "0 < v"
      by (cases v) auto
    from pr' [OF that] have b: "0 \<le> P' v" "nat (P' v) < n" "K' (nat (P' v))"
      by (simp_all add: nat_less_iff)
    from c8k' [OF b(2,3)] obtain k where k: "k < Suc i" "reach P' n (nat (P' v)) k"
      by blast
    then have "reach P' n v (Suc k)"
      using v0 that b(1) by (simp add: reach.reach_step)
    with k(1) show ?thesis
      by (metis Suc_leI)
  qed
  have c10': "min n (Suc i) \<le> card {v. v < n \<and> K' v}"
  proof (cases "\<exists>v0<n. \<not> K v0")
    case False
    then have "{v. v < n \<and> K' v} = {v. v < n}"
      using mono by auto
    then show ?thesis
      by simp
  next
    case True
    then obtain v0 where v0: "v0 < n" "\<not> K v0"
      by blast
    have "\<exists>uv<n. \<not> K uv \<and> K' uv"
    proof (cases "K' v0")
      case True
      with v0 show ?thesis by blast
    next
      case False
      from real_u [OF v0(1) False] show ?thesis
        by blast
    qed
    then obtain uv where uv: "uv < n" "\<not> K uv" "K' uv"
      by blast
    have fin: "finite {v. v < n \<and> K' v}"
      by simp
    have "insert uv {v. v < n \<and> K v} \<subseteq> {v. v < n \<and> K' v}"
      using uv mono by auto
    from card_mono [OF fin this] uv(2)
    have "Suc (card {v. v < n \<and> K v}) \<le> card {v. v < n \<and> K' v}"
      by simp
    with c10 show ?thesis
      by simp
  qed
  show ?thesis
    unfolding ginv_def
    using k0' pr' c7' c8k' c8' c10'
    unfolding K'_def P'_def D'_def M_def S'_def sdist_def
    by simp
qed

lemma ginv_start:
  assumes "Dijkstra_start mats loc_n = Inr procs" and "length mats = p"
    and "n = p * loc_n" and "0 < p"
  shows "ginv mats loc_n n 1 procs"
proof -
  note st = Dijkstra_start_spec [OF assms]
  from st(2) assms(3,4) have n0: "0 < n"
    by simp
  from st(3) have d: "\<And>v. v < n \<Longrightarrow> gdist procs loc_n v = gmat mats loc_n 0 v"
    and p: "\<And>v. v < n \<Longrightarrow> gpred procs loc_n v = 0"
    and k: "\<And>v. v < n \<Longrightarrow> gknown procs loc_n v = (if v = 0 then 1 else 0)"
    by simp_all
  have r0: "reach (gpred procs loc_n) n 0 0"
    using n0 by (rule reach_source)
  have r1: "reach (gpred procs loc_n) n v (Suc 0)" if "v < n" "v \<noteq> 0" for v
    using that p [OF that(1)] r0 by (intro reach_step) simp_all
  have "\<exists>k\<le>1. reach (gpred procs loc_n) n v k" if "v < n" for v
  proof (cases "v = 0")
    case True
    with r0 show ?thesis by auto
  next
    case False
    with r1 [OF that] show ?thesis by auto
  qed
  moreover have "\<exists>k<1. reach (gpred procs loc_n) n v k"
    if "v < n" "gknown procs loc_n v \<noteq> 0" for v
  proof -
    from k [OF that(1)] that(2) have "v = 0"
      by (cases "v = 0") simp_all
    with r0 show ?thesis by auto
  qed
  moreover have "{v. v < n \<and> gknown procs loc_n v \<noteq> 0} = {0}"
    using k n0 by (auto split: if_splits)
  then have "min n 1 \<le> card {v. v < n \<and> gknown procs loc_n v \<noteq> 0}"
    by simp
  ultimately show ?thesis
    unfolding ginv_def using d p k n0 by (simp add: sdist_def)
qed

lemma small_n:
  assumes "int n * int n \<le> INT_MAX"
  shows "int n \<le> INFINITY"
proof (rule ccontr)
  assume "\<not> int n \<le> INFINITY"
  then have "1000001 \<le> int n"
    by (simp add: INFINITY_def)
  then have "1000001 * 1000001 \<le> int n * int n"
    by (intro mult_mono) simp_all
  with assms show False
    by (simp add: INT_MAX_def)
qed

lemma ginv_upto:
  assumes up: "Dijkstra_upto mats loc_n i = Inr procs" and i: "1 \<le> i"
    and mats: "length mats = p" "\<forall>r<p. length (mats ! r) = n * loc_n"
    and n: "n = p * loc_n" "0 < p" "int n \<le> INFINITY"
  shows "wf_procs loc_n p procs \<and> ginv mats loc_n n i procs"
proof -
  from up obtain procs0 where s: "Dijkstra_start mats loc_n = Inr procs0"
    and l: "for_loop 1 i (\<lambda>i. Dijkstra_round mats loc_n) procs0 = Inr procs"
    by (auto simp: Dijkstra_upto_def split: sum.splits)
  note st = Dijkstra_start_spec [OF s mats(1) n(1,2)]
  from st(2) n(1,2) have n0: "0 < n"
    by simp
  define I where "I j ps \<longleftrightarrow> wf_procs loc_n p ps \<and> ginv mats loc_n n j ps" for j ps
  have init: "I 1 procs0"
    using st(1) ginv_start [OF s mats(1) n(1,2)] by (simp add: I_def)
  have step: "I (Suc j) ps'" if "I j ps" "Dijkstra_round mats loc_n ps = Inr ps'" for j ps ps'
  proof -
    from that(1) have wf: "wf_procs loc_n p ps" and gi: "ginv mats loc_n n j ps"
      by (simp_all add: I_def)
    from round_global [OF that(2) wf mats n]
    obtain min_dist u where "wf_procs loc_n p ps'"
      and "round_step mats loc_n n ps ps' min_dist u"
      by blast
    with ginv_round [OF _ n(3) n0 gi] show ?thesis
      by (simp add: I_def)
  qed
  from for_loop_rule [of 1 i _ procs0 procs I, OF l init] step
  have "I (max 1 i) procs"
    by blast
  with i show ?thesis
    by (simp add: I_def max_def)
qed

lemma main_run_parts:
  assumes run: "main_run p n mat = Inr procs"
    and p: "0 < p" "p dvd n" and len: "length mat = n * n"
  obtains loc_mats where
    "Read_matrix mat n (n div p) (Build_blk_col_type n (n div p)) p = Inr loc_mats"
    and "Dijkstra_upto loc_mats (n div p) n = Inr procs"
    and "length loc_mats = p" and "\<forall>r<p. length (loc_mats ! r) = n * (n div p)"
    and "n = p * (n div p)" and "int n \<le> INFINITY" and "0 < n"
    and "\<forall>u<n. \<forall>v<n. gmat loc_mats (n div p) u v = mat ! (u * n + v)"
proof -
  define loc_n where "loc_n = n div p"
  have n: "n = p * loc_n"
    using p(2) by (simp add: loc_n_def)
  then have le: "p * loc_n \<le> n"
    by simp
  from run obtain loc_mats where
    r: "Read_matrix mat n loc_n (Build_blk_col_type n loc_n) p = Inr loc_mats"
    and d: "Dijkstra loc_mats loc_n n = Inr procs"
    by (auto simp: main_run_def Let_def loc_n_def split: sum.splits)
  from r have sz: "int n * int n \<le> INT_MAX"
    by (auto simp: Read_matrix_def c_int_def split: if_splits)
  note e = Read_matrix_entry [OF r le len]
  from Read_matrix_spec [OF le len sz] r
  have eq: "loc_mats = map (\<lambda>k. map (\<lambda>m. mat ! (k * loc_n + ((m div loc_n) * n + m mod loc_n)))
                             [0..<n * loc_n]) [0..<p]"
    by simp
  have lm: "length loc_mats = p"
    by (simp add: eq)
  have lb: "\<forall>r<p. length (loc_mats ! r) = n * loc_n"
    by (simp add: eq)
  from d obtain procs0 where s: "Dijkstra_start loc_mats loc_n = Inr procs0"
    by (auto simp: Dijkstra_def split: sum.splits)
  from Dijkstra_start_spec(2) [OF s lm n p(1)] n p(1) have n0: "0 < n"
    by simp
  have gm: "\<forall>u<n. \<forall>v<n. gmat loc_mats loc_n u v = mat ! (u * n + v)"
  proof (intro allI impI)
    fix u v
    assume u: "u < n" and v: "v < n"
    note vs = vertex_split [OF n v]
    from e(3) [OF vs(1) u vs(2)]
    show "gmat loc_mats loc_n u v = mat ! (u * n + v)"
      by (simp add: gmat_def)
  qed
  from that [of loc_mats] r d lm lb n sz n0 gm show thesis
    unfolding loc_n_def by (simp add: Dijkstra_upto_n small_n)
qed

lemma Gather_vector:
  fixes n p loc_n :: nat
  assumes "length xs = p" and "\<forall>r<p. length (xs ! r) = loc_n" and "n = p * loc_n"
  shows "MPI_Gather xs (MPI_Type_contiguous loc_n) (replicate n None) =
           Inr (map (\<lambda>v. Some (xs ! (v div loc_n) ! (v mod loc_n))) [0..<n])"
proof -
  let ?T = "MPI_Type_contiguous loc_n"
  let ?f = "\<lambda>v. xs ! (v div loc_n) ! (v mod loc_n)"
  have T: "displs ?T = [0..<loc_n]" "extent ?T = loc_n"
    by (simp_all add: MPI_Type_contiguous_def)
  have bounds: "m < length (xs ! k) \<and>
      k * extent ?T + displs ?T ! m < length (replicate n (None :: int option))"
    if "k < length xs" "m < length (displs ?T)" for k m
    using that assms vertex_join(1) [of k p m loc_n] by (simp add: T)
  have cons: "xs ! k ! m = ?f (k * extent ?T + displs ?T ! m)"
    if "k < length xs" "m < length (displs ?T)" for k m
    using that by (simp add: T)
  from MPI_Gather_spec [of xs ?T "replicate n None" ?f, OF bounds cons]
  obtain buf where buf: "MPI_Gather xs ?T (replicate n None) = Inr buf"
    and lb: "length buf = n"
    and nb: "\<forall>idx<n. buf ! idx =
        (if \<exists>k<length xs. \<exists>m<length (displs ?T). idx = k * extent ?T + displs ?T ! m
         then Some (?f idx) else replicate n None ! idx)"
    by auto
  have "buf ! idx = Some (?f idx)" if "idx < n" for idx
  proof -
    note vs = vertex_split [OF assms(3) that]
    have "idx div loc_n < length xs \<and> idx mod loc_n < length (displs ?T) \<and>
        idx = (idx div loc_n) * extent ?T + displs ?T ! (idx mod loc_n)"
      using vs assms(1) by (simp add: T)
    then have "\<exists>k<length xs. \<exists>m<length (displs ?T). idx = k * extent ?T + displs ?T ! m"
      by blast
    with nb that show ?thesis
      by simp
  qed
  then have "buf = map (\<lambda>v. Some (?f v)) [0..<n]"
    using lb by (intro nth_equalityI) simp_all
  with buf show ?thesis
    by simp
qed

section \<open>The engine and the sequential reference\<close>

lemma spec_min_None: "spec_min dist vs = None \<longleftrightarrow> vs = []"
  by (cases vs) (auto split: option.splits)

lemma spec_min_Some:
  assumes "spec_min dist vs = Some (d, u)" and "sorted_wrt (<) vs"
  shows "u \<in> set vs \<and> d = dist ! u \<and> (\<forall>v\<in>set vs. d \<le> dist ! v) \<and>
         (\<forall>v\<in>set vs. v < u \<longrightarrow> d < dist ! v)"
  using assms
proof (induction vs arbitrary: d u)
  case Nil
  then show ?case by simp
next
  case (Cons v vs)
  show ?case
  proof (cases "spec_min dist vs")
    case None
    then have "vs = []"
      by (simp add: spec_min_None)
    with Cons.prems show ?thesis
      by auto
  next
    case (Some a)
    obtain d' u' where a: "a = (d', u')"
      by (cases a)
    from Cons.prems(2) have srt: "sorted_wrt (<) vs" and lt: "\<forall>w\<in>set vs. v < w"
      by simp_all
    note ih = Cons.IH [OF Some [unfolded a] srt]
    show ?thesis
    proof (cases "dist ! v \<le> d'")
      case True
      with Cons.prems(1) Some a have "d = dist ! v" "u = v"
        by auto
      with ih True lt show ?thesis
        by fastforce
    next
      case False
      with Cons.prems(1) Some a have "d = d'" "u = u'"
        by auto
      with ih False show ?thesis
        by fastforce
    qed
  qed
qed

lemma spec_min_least:
  assumes "u \<in> set vs" and "\<forall>v\<in>set vs. dist ! u \<le> dist ! v"
    and "\<forall>v\<in>set vs. v < u \<longrightarrow> dist ! u < dist ! v" and "sorted_wrt (<) vs"
  shows "spec_min dist vs = Some (dist ! u, u)"
proof -
  from assms(1) have "spec_min dist vs \<noteq> None"
    by (auto simp: spec_min_None)
  then obtain d u' where s: "spec_min dist vs = Some (d, u')"
    by auto
  note p = spec_min_Some [OF s assms(4)]
  have "d = dist ! u"
    using p assms(1,2) by (metis order_antisym)
  moreover have "u' = u"
    using p assms(1,3) calculation by (metis linorder_neqE_nat less_irrefl)
  ultimately show ?thesis
    using s by simp
qed

lemma sim_round:
  assumes rs: "round_step mats loc_n n procs procs' min_dist u"
    and sel: "round_sel procs loc_n n min_dist u"
    and small: "int n \<le> INFINITY"
    and gm: "\<forall>u<n. \<forall>v<n. gmat mats loc_n u v = mat ! (u * n + v)"
    and sm: "sim loc_n n s procs"
  shows "sim loc_n n (spec_round n mat s) procs'"
proof -
  define K where "K v \<longleftrightarrow> gknown procs loc_n v \<noteq> 0" for v
  define K' where "K' v \<longleftrightarrow> gknown procs' loc_n v \<noteq> 0" for v
  define P where "P = gpred procs loc_n"
  define P' where "P' = gpred procs' loc_n"
  define D where "D = gdist procs loc_n"
  define D' where "D' = gdist procs' loc_n"
  from sm have s: "s = (map D [0..<n], map P [0..<n], map K [0..<n])"
    by (simp add: sim_def D_def P_def K_def)
  from rs have kn: "\<And>v. v < n \<Longrightarrow> K' v \<longleftrightarrow> int v = u \<or> K v"
    and same: "\<And>v. v < n \<Longrightarrow> K' v \<Longrightarrow> D' v = D v \<and> P' v = P v"
    and rlx: "\<And>v. v < n \<Longrightarrow> \<not> K' v \<Longrightarrow> 0 \<le> u \<and> u < int n \<and>
        (if min_dist + gmat mats loc_n (nat u) v < D v
         then D' v = min_dist + gmat mats loc_n (nat u) v \<and> P' v = u
         else D' v = D v \<and> P' v = P v)"
    unfolding round_step_def K_def K'_def P_def P'_def D_def D'_def by auto
  let ?cand = "filter (\<lambda>v. \<not> map K [0..<n] ! v) [0..<n]"
  have cand: "set ?cand = {v. v < n \<and> \<not> K v}"
    by auto
  have goal: "sim loc_n n t procs'"
    if "t = (map D' [0..<n], map P' [0..<n], map K' [0..<n])" for t
    using that by (simp add: sim_def D'_def P'_def K'_def)
  show ?thesis
  proof (cases "\<exists>v<n. \<not> K v")
    case False
    then have allK: "\<And>v. v < n \<Longrightarrow> K v"
      by blast
    then have "?cand = []"
      by (auto simp: filter_empty_conv)
    then have "spec_round n mat s = s"
      by (simp add: spec_round_def s)
    moreover have "map D' [0..<n] = map D [0..<n]" "map P' [0..<n] = map P [0..<n]"
      "map K' [0..<n] = map K [0..<n]"
      using allK kn same by auto
    ultimately show ?thesis
      using s by (intro goal) simp
  next
    case True
    then obtain v0 where v0: "v0 < n" "\<not> K v0"
      by blast
    have "u \<noteq> INFINITY"
    proof
      assume e: "u = INFINITY"
      with kn [OF v0(1)] v0 small have "\<not> K' v0"
        by auto
      from rlx [OF v0(1) this] e small show False
        by simp
    qed
    with sel obtain uv where uv: "u = int uv" "min_dist = D uv" "least_unknown procs loc_n n uv"
      unfolding round_sel_def D_def by auto
    from uv(3) have un: "uv < n" and ku: "\<not> K uv"
      and mn: "\<forall>v<n. \<not> K v \<longrightarrow> D uv \<le> D v"
      and tb: "\<forall>v<uv. \<not> K v \<longrightarrow> D uv < D v"
      unfolding least_unknown_def K_def D_def by auto
    have "spec_min (map D [0..<n]) ?cand = Some (map D [0..<n] ! uv, uv)"
    proof (rule spec_min_least)
      show "uv \<in> set ?cand"
        using un ku by simp
      show "\<forall>v\<in>set ?cand. map D [0..<n] ! uv \<le> map D [0..<n] ! v"
        using un mn by auto
      show "\<forall>v\<in>set ?cand. v < uv \<longrightarrow> map D [0..<n] ! uv < map D [0..<n] ! v"
        using un tb by auto
      show "sorted_wrt (<) ?cand"
        by (intro sorted_wrt_filter) simp
    qed
    then have sp: "spec_min (map D [0..<n]) ?cand = Some (min_dist, uv)"
      using un uv(2) by simp
    have k': "(map K [0..<n])[uv := True] = map K' [0..<n]"
      using kn uv(1) un by (intro nth_equalityI) (auto simp: nth_list_update)
    have cond: "(\<not> K' v \<and> min_dist + mat ! (uv * n + v) < D v) =
        (\<not> K' v \<and> min_dist + gmat mats loc_n (nat u) v < D v)" if "v < n" for v
      using gm un that uv(1) by simp
    have d': "map (\<lambda>v. if \<not> map K' [0..<n] ! v \<and> min_dist + mat ! (uv * n + v) < map D [0..<n] ! v
                         then min_dist + mat ! (uv * n + v) else map D [0..<n] ! v) [0..<n] =
        map D' [0..<n]"
    proof (rule map_cong [OF refl])
      fix v
      assume "v \<in> set [0..<n]"
      then have v: "v < n" by simp
      show "(if \<not> map K' [0..<n] ! v \<and> min_dist + mat ! (uv * n + v) < map D [0..<n] ! v
             then min_dist + mat ! (uv * n + v) else map D [0..<n] ! v) = D' v"
      proof (cases "K' v")
        case True
        with same [OF v] v show ?thesis by simp
      next
        case False
        with rlx [OF v False] cond [OF v] gm un v uv(1) show ?thesis
          by (auto split: if_splits)
      qed
    qed
    have p': "map (\<lambda>v. if \<not> map K' [0..<n] ! v \<and> min_dist + mat ! (uv * n + v) < map D [0..<n] ! v
                         then int uv else map P [0..<n] ! v) [0..<n] =
        map P' [0..<n]"
    proof (rule map_cong [OF refl])
      fix v
      assume "v \<in> set [0..<n]"
      then have v: "v < n" by simp
      show "(if \<not> map K' [0..<n] ! v \<and> min_dist + mat ! (uv * n + v) < map D [0..<n] ! v
             then int uv else map P [0..<n] ! v) = P' v"
      proof (cases "K' v")
        case True
        with same [OF v] v show ?thesis by simp
      next
        case False
        with rlx [OF v False] cond [OF v] gm un v uv(1) show ?thesis
          by (auto split: if_splits)
      qed
    qed
    have "spec_round n mat s = (map D' [0..<n], map P' [0..<n], map K' [0..<n])"
      unfolding spec_round_def s using sp k' d' p' by (simp add: Let_def)
    then show ?thesis
      by (rule goal)
  qed
qed

lemma sim_start:
  assumes "Dijkstra_start mats loc_n = Inr procs" and "length mats = p"
    and "n = p * loc_n" and "0 < p"
    and gm: "\<forall>u<n. \<forall>v<n. gmat mats loc_n u v = mat ! (u * n + v)"
  shows "sim loc_n n (spec_init n mat)
           procs"
proof -
  note st = Dijkstra_start_spec [OF assms(1-4)]
  from st(2) assms(3,4) have n0: "0 < n"
    by simp
  have "map (\<lambda>v. mat ! v) [0..<n] = map (gdist procs loc_n) [0..<n]"
    using st(3) gm n0 by (intro map_cong [OF refl]) simp
  moreover have "replicate n 0 = map (gpred procs loc_n) [0..<n]"
    using st(3) by (intro nth_equalityI) simp_all
  moreover have "(replicate n False)[0 := True] = map (\<lambda>v. gknown procs loc_n v \<noteq> 0) [0..<n]"
    using st(3) by (intro nth_equalityI) (simp_all add: nth_list_update)
  ultimately show ?thesis
    by (simp add: sim_def spec_init_def)
qed

lemma sim_upto:
  assumes up: "Dijkstra_upto mats loc_n i = Inr procs" and i: "1 \<le> i"
    and mats: "length mats = p" "\<forall>r<p. length (mats ! r) = n * loc_n"
    and n: "n = p * loc_n" "0 < p" "int n \<le> INFINITY"
    and gm: "\<forall>u<n. \<forall>v<n. gmat mats loc_n u v = mat ! (u * n + v)"
  shows "sim loc_n n
           ((spec_round n mat ^^ (i - 1))
              (spec_init n mat))
           procs"
proof -
  let ?init = "spec_init n mat"
  from up obtain procs0 where s: "Dijkstra_start mats loc_n = Inr procs0"
    and l: "for_loop 1 i (\<lambda>i. Dijkstra_round mats loc_n) procs0 = Inr procs"
    by (auto simp: Dijkstra_upto_def split: sum.splits)
  note st = Dijkstra_start_spec [OF s mats(1) n(1,2)]
  define I where "I j ps \<longleftrightarrow> wf_procs loc_n p ps \<and>
      sim loc_n n ((spec_round n mat ^^ (j - 1)) ?init) ps" for j ps
  have init: "I 1 procs0"
    using st(1) sim_start [OF s mats(1) n(1,2) gm] by (simp add: I_def)
  have step: "I (Suc j) ps'"
    if "1 \<le> j" "I j ps" "Dijkstra_round mats loc_n ps = Inr ps'" for j ps ps'
  proof -
    from that(2) have wf: "wf_procs loc_n p ps"
      and sm: "sim loc_n n ((spec_round n mat ^^ (j - 1)) ?init) ps"
      by (simp_all add: I_def)
    from round_global [OF that(3) wf mats n]
    obtain min_dist u where wf': "wf_procs loc_n p ps'"
      and rs: "round_step mats loc_n n ps ps' min_dist u"
      and sel: "round_sel ps loc_n n min_dist u"
      by blast
    from that(1) obtain k where k: "j = Suc k"
      by (cases j) auto
    from sim_round [OF rs sel n(3) gm sm]
    have "sim loc_n n ((spec_round n mat ^^ (Suc j - 1)) ?init) ps'"
      unfolding k by simp
    with wf' show ?thesis
      by (simp add: I_def)
  qed
  from for_loop_rule [of 1 i _ procs0 procs I, OF l init] step
  have "I (max 1 i) procs"
    by blast
  with i show ?thesis
    by (simp add: I_def max_def)
qed

text \<open>
  The engine against the reference. When \<^verbatim>\<open>Dijkstra\<close> returns in a run with \<open>p\<close>
  dividing \<open>n\<close>, the distances, predecessors and known sets of the processes are those of
  the sequential reference on the same matrix, and the gathered distances are the
  distances of the reference.
\<close>

theorem completed_engine_matches_reference:
  assumes "0 < p" and "p dvd n" and "length mat = n * n" and "main_run p n mat = Inr procs"
  shows "spec_seq_Dijkstra n mat =
           (map (gdist procs (n div p)) [0..<n], map (gpred procs (n div p)) [0..<n],
            map (\<lambda>v. gknown procs (n div p) v \<noteq> 0) [0..<n]) \<and>
         MPI_Gather (map loc_dist procs) (MPI_Type_contiguous (n div p)) (replicate n None) =
           Inr (map Some (fst (spec_seq_Dijkstra n mat)))"
proof -
  define loc_n where "loc_n = n div p"
  from main_run_parts [OF assms(4,1,2,3)] obtain loc_mats where
    up: "Dijkstra_upto loc_mats loc_n n = Inr procs"
    and lm: "length loc_mats = p" "\<forall>r<p. length (loc_mats ! r) = n * loc_n"
    and n: "n = p * loc_n" "int n \<le> INFINITY" "0 < n"
    and gm: "\<forall>u<n. \<forall>v<n. gmat loc_mats loc_n u v = mat ! (u * n + v)"
    unfolding loc_n_def by metis
  from n(3) have n1: "1 \<le> n"
    by simp
  from sim_upto [OF up n1 lm n(1) assms(1) n(2) gm]
  have eq: "spec_seq_Dijkstra n mat =
      (map (gdist procs loc_n) [0..<n], map (gpred procs loc_n) [0..<n],
       map (\<lambda>v. gknown procs loc_n v \<noteq> 0) [0..<n])"
    by (simp add: sim_def spec_seq_Dijkstra_def)
  from ginv_upto [OF up n1 lm n(1) assms(1) n(2)]
  have wf: "wf_procs loc_n p procs"
    by simp
  have "length (map loc_dist procs) = p" "\<forall>r<p. length (map loc_dist procs ! r) = loc_n"
    using wf by (simp_all add: wf_procs_def)
  from Gather_vector [OF this n(1)] wf
  have "MPI_Gather (map loc_dist procs) (MPI_Type_contiguous loc_n) (replicate n None) =
      Inr (map Some (map (gdist procs loc_n) [0..<n]))"
    by (simp add: gdist_def wf_procs_def vertex_split [OF n(1)] comp_def cong: map_cong)
  with eq show ?thesis
    unfolding loc_n_def by simp
qed

section \<open>When the engine completes\<close>

lemma all_ok_map_ex:
  assumes "\<And>x. x \<in> set xs \<Longrightarrow> \<exists>y. f x = Inr y"
  shows "\<exists>ys. all_ok (map f xs) = Inr ys"
  using assms
proof (induction xs)
  case Nil
  show ?case by simp
next
  case (Cons x xs)
  from Cons.prems [of x] obtain y where "f x = Inr y"
    by auto
  moreover from Cons.IH Cons.prems obtain ys where "all_ok (map f xs) = Inr ys"
    by auto
  ultimately show ?case
    by simp
qed

lemma relax_total:
  assumes v: "v < loc_n"
    and lens: "length (known s) = loc_n" "length (loc_dist s) = loc_n"
      "length (loc_pred s) = loc_n"
    and ok: "known s ! v \<noteq> 0 \<or>
        (0 \<le> u \<and> u < int n \<and> length mat = n * loc_n \<and> int n * int n \<le> INT_MAX \<and>
         loc_n \<le> n \<and> 0 \<le> min_dist \<and> min_dist \<le> INFINITY \<and>
         (\<forall>x\<in>set mat. 0 \<le> x \<and> x \<le> INFINITY))"
  shows "\<exists>t. relax mat loc_n min_dist u v s = Inr t \<and> known t = known s \<and>
           length (loc_dist t) = loc_n \<and> length (loc_pred t) = loc_n"
proof (cases "known s ! v = 0")
  case False
  with v lens show ?thesis
    by (simp add: relax_def rd_nat)
next
  case True
  with ok have u: "0 \<le> u" "u < int n" and lm: "length mat = n * loc_n"
    and sz: "int n * int n \<le> INT_MAX" and ln: "loc_n \<le> n"
    and md: "0 \<le> min_dist" "min_dist \<le> INFINITY"
    and w: "\<forall>x\<in>set mat. 0 \<le> x \<and> x \<le> INFINITY"
    by simp_all
  define un where "un = nat u"
  have uu: "u = int un" "un < n"
    using u by (simp_all add: un_def)
  have "Suc un * loc_n \<le> n * loc_n"
    using uu(2) by (intro mult_le_mono1) simp
  with v have idx: "un * loc_n + v < n * loc_n"
    by simp
  have "n * loc_n \<le> n * n"
    using ln by (rule mult_le_mono2)
  with idx have "un * loc_n + v \<le> n * n" "un * loc_n \<le> n * n"
    by linarith+
  then have "int (un * loc_n + v) \<le> int (n * n)" "int (un * loc_n) \<le> int (n * n)"
    by (simp_all only: of_nat_le_iff)
  with sz have b: "int un * int loc_n + int v \<le> INT_MAX" "int un * int loc_n \<le> INT_MAX"
    by simp_all
  have c1: "c_int (u * int loc_n) = Inr (int (un * loc_n))"
    using b(2) uu(1) by (simp add: c_int_nonneg)
  have c2: "c_int (int (un * loc_n) + int v) = Inr (int (un * loc_n + v))"
    using b(1) by (simp add: c_int_nonneg)
  have r: "rd mat (int (un * loc_n + v)) = Inr (mat ! (un * loc_n + v))"
    using idx lm by (simp add: rd_nat del: of_nat_add of_nat_mult)
  have "mat ! (un * loc_n + v) \<in> set mat"
    using idx lm by simp
  with w have wb: "0 \<le> mat ! (un * loc_n + v)" "mat ! (un * loc_n + v) \<le> INFINITY"
    by simp_all
  have c3: "c_int (min_dist + mat ! (un * loc_n + v)) = Inr (min_dist + mat ! (un * loc_n + v))"
    using md wb by (intro c_int_nonneg) (simp_all add: INFINITY_def INT_MAX_def)
  show ?thesis
    using True v lens c1 c2 r c3
    by (simp add: relax_def rd_nat wr_nat del: of_nat_add of_nat_mult)
qed

lemma relax_loop_total:
  assumes lens: "length (known s) = loc_n" "length (loc_dist s) = loc_n"
      "length (loc_pred s) = loc_n"
    and ok: "\<forall>v<loc_n. known s ! v \<noteq> 0 \<or>
        (0 \<le> u \<and> u < int n \<and> length mat = n * loc_n \<and> int n * int n \<le> INT_MAX \<and>
         loc_n \<le> n \<and> 0 \<le> min_dist \<and> min_dist \<le> INFINITY \<and>
         (\<forall>x\<in>set mat. 0 \<le> x \<and> x \<le> INFINITY))"
  shows "\<exists>s'. for_loop 0 loc_n (relax mat loc_n min_dist u) s = Inr s'"
proof -
  define I where "I (v :: nat) t \<longleftrightarrow> known t = known s \<and> length (loc_dist t) = loc_n \<and>
      length (loc_pred t) = loc_n" for v and t :: proc
  have init: "I 0 s"
    using lens by (simp add: I_def)
  have step: "\<exists>t'. relax mat loc_n min_dist u v t = Inr t' \<and> I (Suc v) t'"
    if "v < loc_n" "I v t" for v t
  proof -
    from that(2) have k: "known t = known s" and l: "length (loc_dist t) = loc_n"
      "length (loc_pred t) = loc_n"
      by (simp_all add: I_def)
    from relax_total [OF that(1) _ l, of u n mat min_dist] k lens(1) ok that(1)
    show ?thesis
      by (auto simp: I_def)
  qed
  from for_loop_total [of I 0 s loc_n "relax mat loc_n min_dist u", OF init step]
  show ?thesis
    by auto
qed

lemma Dijkstra_update_total:
  assumes lens: "length (known s) = loc_n" "length (loc_dist s) = loc_n"
      "length (loc_pred s) = loc_n"
    and pos: "0 < loc_n" and u0: "0 \<le> u"
    and ok: "\<forall>v<loc_n. known s ! v \<noteq> 0 \<or>
        (0 \<le> u \<and> u < int n \<and> length mat = n * loc_n \<and> int n * int n \<le> INT_MAX \<and>
         loc_n \<le> n \<and> 0 \<le> min_dist \<and> min_dist \<le> INFINITY \<and>
         (\<forall>x\<in>set mat. 0 \<le> x \<and> x \<le> INFINITY))"
  shows "\<exists>s'. Dijkstra_update mat loc_n r (min_dist, u) s = Inr s'"
proof -
  define kn where "kn = (if u sdiv int loc_n = int r then (known s)[nat (u smod int loc_n) := 1]
                         else known s)"
  have m: "0 \<le> u smod int loc_n" "u smod int loc_n < int loc_n"
    using u0 pos by (simp_all add: sdiv_nonneg)
  have w: "(if u sdiv int loc_n = int r then wr (known s) (u smod int loc_n) 1
            else Inr (known s)) = Inr kn"
    using m lens(1) by (simp add: kn_def wr_def)
  have lk: "length kn = loc_n"
    using lens(1) by (simp add: kn_def)
  have "kn ! v \<noteq> 0" if "v < loc_n" "known s ! v \<noteq> 0" for v
    using that lens(1) by (cases "nat (u smod int loc_n) = v") (simp_all add: kn_def)
  with ok have ok': "\<forall>v<loc_n. known (s\<lparr>known := kn\<rparr>) ! v \<noteq> 0 \<or>
        (0 \<le> u \<and> u < int n \<and> length mat = n * loc_n \<and> int n * int n \<le> INT_MAX \<and>
         loc_n \<le> n \<and> 0 \<le> min_dist \<and> min_dist \<le> INFINITY \<and>
         (\<forall>x\<in>set mat. 0 \<le> x \<and> x \<le> INFINITY))"
    by auto
  from relax_loop_total [of "s\<lparr>known := kn\<rparr>" loc_n u n mat min_dist, OF _ _ _ ok'] lk lens
  obtain s' where "for_loop 0 loc_n (relax mat loc_n min_dist u) (s\<lparr>known := kn\<rparr>) = Inr s'"
    by auto
  with w pos show ?thesis
    by (simp add: Dijkstra_update_def)
qed

lemma Dijkstra_round_total:
  assumes wf: "wf_procs loc_n p procs"
    and mats: "length mats = p" "\<forall>r<p. length (mats ! r) = n * loc_n"
    and n: "n = p * loc_n" "0 < p" "0 < loc_n" "int n * int n \<le> INT_MAX"
    and w: "\<forall>r<p. weights_ok (mats ! r)"
    and db: "dist_bounded procs loc_n n"
    and prog: "can_progress procs loc_n n"
  shows "\<exists>procs'. Dijkstra_round mats loc_n procs = Inr procs'"
proof -
  from wf have lp: "length procs = p"
    by (simp add: wf_procs_def)
  have wfr: "length (loc_dist (procs ! r)) = loc_n" "length (loc_pred (procs ! r)) = loc_n"
    "length (known (procs ! r)) = loc_n" if "r < p" for r
    using wf that by (simp_all add: wf_procs_def)
  note sn = small_n [OF n(4)]
  have small: "int loc_n \<le> INFINITY" "(int r + 1) * int loc_n \<le> INT_MAX" if "r < p" for r
  proof -
    have "Suc r * loc_n \<le> p * loc_n"
      using that by (intro mult_le_mono1) simp
    then have "int (Suc r * loc_n) \<le> int (p * loc_n)"
      by (simp only: of_nat_le_iff)
    moreover have "int (Suc r * loc_n) = (int r + 1) * int loc_n"
      by (simp add: algebra_simps)
    ultimately have a: "(int r + 1) * int loc_n \<le> int n"
      using n(1) by simp
    have "int loc_n \<le> (int r + 1) * int loc_n"
      by (simp add: algebra_simps)
    with a sn show "int loc_n \<le> INFINITY"
      by linarith
    from a sn show "(int r + 1) * int loc_n \<le> INT_MAX"
      by (simp add: INFINITY_def INT_MAX_def)
  qed
  have "\<exists>y. my_min (loc_dist (procs ! r)) (known (procs ! r)) loc_n r = Inr y"
    if "r \<in> set [0..<length procs]" for r
  proof -
    from that lp have r: "r < p" by simp
    from my_min_spec [of loc_n "loc_dist (procs ! r)" "known (procs ! r)" r]
      wfr [OF r] small [OF r]
    show ?thesis
      by auto
  qed
  from all_ok_map_ex [of "[0..<length procs]"
      "\<lambda>r. my_min (loc_dist (procs ! r)) (known (procs ! r)) loc_n r", OF this]
  obtain my_mins where
    am: "all_ok (map (\<lambda>r. my_min (loc_dist (procs ! r)) (known (procs ! r)) loc_n r)
                       [0..<length procs]) = Inr my_mins"
    by blast
  then have lm: "length my_mins = p"
    and mm: "\<And>r. r < p \<Longrightarrow>
        my_min (loc_dist (procs ! r)) (known (procs ! r)) loc_n r = Inr (my_mins ! r)"
    using lp by (simp_all add: all_ok_map_Inr)
  define min_dist where "min_dist = fst (MINLOC_reduce my_mins)"
  define u where "u = snd (MINLOC_reduce my_mins)"
  have g: "MINLOC_reduce my_mins = (min_dist, u)"
    by (simp add: min_dist_def u_def)
  from MINLOC_selection [OF lm mm wf n(1,2) sn]
  have sel: "round_sel procs loc_n n min_dist u"
    by (simp add: min_dist_def u_def)
  then have u0: "0 \<le> u"
    unfolding round_sel_def by (auto simp: INFINITY_def)
  have ln: "loc_n \<le> n"
    using n(1,2) by simp
  have ok: "\<forall>v<loc_n. known (procs ! r) ! v \<noteq> 0 \<or>
        (0 \<le> u \<and> u < int n \<and> length (mats ! r) = n * loc_n \<and> int n * int n \<le> INT_MAX \<and>
         loc_n \<le> n \<and> 0 \<le> min_dist \<and> min_dist \<le> INFINITY \<and>
         (\<forall>x\<in>set (mats ! r). 0 \<le> x \<and> x \<le> INFINITY))"
    if r: "r < p" for r
  proof (cases "\<forall>v<n. gknown procs loc_n v \<noteq> 0")
    case True
    have "known (procs ! r) ! v \<noteq> 0" if "v < loc_n" for v
    proof -
      note vj = vertex_join [OF r that]
      from True vj(1) n(1) have "gknown procs loc_n (r * loc_n + v) \<noteq> 0"
        by simp
      with vj(2,3) show ?thesis
        by (simp add: gknown_def)
    qed
    then show ?thesis
      by blast
  next
    case False
    with prog obtain v0 where "v0 < n" "gknown procs loc_n v0 = 0" "gdist procs loc_n v0 < INFINITY"
      unfolding can_progress_def by blast
    with sel obtain uv where uv: "u = int uv" "min_dist = gdist procs loc_n uv"
      "least_unknown procs loc_n n uv"
      unfolding round_sel_def by fastforce
    from uv(3) have "uv < n"
      by (simp add: least_unknown_def)
    with db uv(1,2) have "0 \<le> u \<and> u < int n \<and> 0 \<le> min_dist \<and> min_dist \<le> INFINITY"
      by (simp add: dist_bounded_def)
    with mats(2) r n(4) ln w show ?thesis
      by (simp add: weights_ok_def)
  qed
  have "\<exists>y. Dijkstra_update (mats ! r) loc_n r (MPI_Allreduce_MINLOC my_mins ! r) (procs ! r) = Inr y"
    if "r \<in> set [0..<length procs]" for r
  proof -
    from that lp have r: "r < p" by simp
    then have "MPI_Allreduce_MINLOC my_mins ! r = (min_dist, u)"
      using lm g by (simp add: MPI_Allreduce_MINLOC_def)
    with Dijkstra_update_total [OF wfr(3,1,2) [OF r] n(3) u0 ok [OF r]] show ?thesis
      by simp
  qed
  from all_ok_map_ex [of "[0..<length procs]"
      "\<lambda>r. Dijkstra_update (mats ! r) loc_n r (MPI_Allreduce_MINLOC my_mins ! r) (procs ! r)",
      OF this] am
  show ?thesis
    by (simp add: Dijkstra_round_def)
qed

lemma Dijkstra_start_total:
  assumes "length mats = p" and "\<forall>r<p. length (mats ! r) = n * loc_n"
    and "0 < n" and "0 < loc_n"
  shows "\<exists>procs. Dijkstra_start mats loc_n = Inr procs"
proof -
  have "\<exists>y. Dijkstra_init (mats ! r) loc_n r = Inr y" if "r \<in> set [0..<length mats]" for r
  proof -
    from that assms(1) have r: "r < p" by simp
    have "loc_n \<le> n * loc_n"
      using assms(3) by simp
    with assms(2) r have le: "loc_n \<le> length (mats ! r)"
      by simp
    have "all_ok (map (\<lambda>v. rd (mats ! r) (int (0 * loc_n + v))) [0..<loc_n]) =
        Inr (map (\<lambda>v. mats ! r ! v) [0..<loc_n])"
      using le by (intro all_ok_map_total) (simp add: rd_nat)
    then show ?thesis
      using assms(4) by (simp add: Dijkstra_init_def wr_def)
  qed
  from all_ok_map_ex [of "[0..<length mats]" "\<lambda>r. Dijkstra_init (mats ! r) loc_n r", OF this]
  show ?thesis
    by (simp add: Dijkstra_start_def)
qed

lemma bounds_round:
  assumes rs: "round_step mats loc_n n procs procs' min_dist u"
    and sel: "round_sel procs loc_n n min_dist u"
    and small: "int n \<le> INFINITY"
  shows "known_finite procs loc_n n \<Longrightarrow> known_finite procs' loc_n n"
    and "dist_bounded procs loc_n n \<Longrightarrow> (\<forall>u<n. \<forall>v<n. 0 \<le> gmat mats loc_n u v) \<Longrightarrow>
           dist_bounded procs' loc_n n"
proof -
  from rs have kn: "\<And>v. v < n \<Longrightarrow>
        gknown procs' loc_n v = (if int v = u then 1 else gknown procs loc_n v)"
    and same: "\<And>v. v < n \<Longrightarrow> gknown procs' loc_n v \<noteq> 0 \<Longrightarrow>
        gdist procs' loc_n v = gdist procs loc_n v"
    and rlx: "\<And>v. v < n \<Longrightarrow> gknown procs' loc_n v = 0 \<Longrightarrow> 0 \<le> u \<and> u < int n \<and>
        (if min_dist + gmat mats loc_n (nat u) v < gdist procs loc_n v
         then gdist procs' loc_n v = min_dist + gmat mats loc_n (nat u) v
         else gdist procs' loc_n v = gdist procs loc_n v)"
    unfolding round_step_def by auto
  have real: "min_dist = gdist procs loc_n (nat u) \<and> min_dist < INFINITY \<and> nat u < n \<and> 0 \<le> u"
    if "u < int n" "0 \<le> u"
  proof -
    from that small have "u \<noteq> INFINITY"
      by auto
    with sel obtain uv where "u = int uv" "min_dist = gdist procs loc_n uv"
      "min_dist < INFINITY" "least_unknown procs loc_n n uv"
      unfolding round_sel_def by auto
    then show ?thesis
      by (simp add: least_unknown_def)
  qed
  show "known_finite procs' loc_n n" if kf: "known_finite procs loc_n n"
    unfolding known_finite_def
  proof (intro allI impI)
    fix v
    assume v: "v < n" "v \<noteq> 0" "gknown procs' loc_n v \<noteq> 0"
    show "gdist procs' loc_n v < INFINITY"
    proof (cases "gknown procs loc_n v \<noteq> 0")
      case True
      with kf v same [OF v(1,3)] show ?thesis
        by (simp add: known_finite_def)
    next
      case False
      with kn [OF v(1)] v(3) have "int v = u"
        by (auto split: if_splits)
      with real [of] v(1) have "gdist procs loc_n v < INFINITY"
        by auto
      with same [OF v(1,3)] show ?thesis
        by simp
    qed
  qed
  show "dist_bounded procs' loc_n n"
    if db: "dist_bounded procs loc_n n" and nn: "\<forall>u<n. \<forall>v<n. 0 \<le> gmat mats loc_n u v"
    unfolding dist_bounded_def
  proof (intro allI impI)
    fix v
    assume v: "v < n"
    from db v have old: "0 \<le> gdist procs loc_n v" "gdist procs loc_n v \<le> INFINITY"
      by (simp_all add: dist_bounded_def)
    show "0 \<le> gdist procs' loc_n v \<and> gdist procs' loc_n v \<le> INFINITY"
    proof (cases "gknown procs' loc_n v \<noteq> 0")
      case True
      with same [OF v] old show ?thesis
        by simp
    next
      case False
      then have r: "0 \<le> u" "u < int n" and c: "if min_dist + gmat mats loc_n (nat u) v < gdist procs loc_n v
         then gdist procs' loc_n v = min_dist + gmat mats loc_n (nat u) v
         else gdist procs' loc_n v = gdist procs loc_n v"
        using rlx [OF v] by simp_all
      from real [OF r(2,1)] db have "0 \<le> min_dist" "nat u < n"
        by (simp_all add: dist_bounded_def)
      with nn v have "0 \<le> min_dist + gmat mats loc_n (nat u) v"
        by simp
      with c old show ?thesis
        by (auto split: if_splits)
    qed
  qed
qed

lemma bounds_upto:
  assumes up: "Dijkstra_upto mats loc_n i = Inr procs" and i: "1 \<le> i"
    and mats: "length mats = p" "\<forall>r<p. length (mats ! r) = n * loc_n"
    and n: "n = p * loc_n" "0 < p" "int n \<le> INFINITY"
  shows "known_finite procs loc_n n"
    and "\<forall>u<n. \<forall>v<n. 0 \<le> gmat mats loc_n u v \<and> gmat mats loc_n u v \<le> INFINITY \<Longrightarrow>
           dist_bounded procs loc_n n"
proof -
  from up obtain procs0 where s: "Dijkstra_start mats loc_n = Inr procs0"
    and l: "for_loop 1 i (\<lambda>i. Dijkstra_round mats loc_n) procs0 = Inr procs"
    by (auto simp: Dijkstra_upto_def split: sum.splits)
  note st = Dijkstra_start_spec [OF s mats(1) n(1,2)]
  define W where "W \<longleftrightarrow> (\<forall>u<n. \<forall>v<n. 0 \<le> gmat mats loc_n u v \<and> gmat mats loc_n u v \<le> INFINITY)"
  define I where "I (j :: nat) ps \<longleftrightarrow> wf_procs loc_n p ps \<and> known_finite ps loc_n n \<and>
      (W \<longrightarrow> dist_bounded ps loc_n n)" for j ps
  from st(2) n(1,2) have n0: "0 < n"
    by simp
  have init: "I 1 procs0"
    using st(1,3) n0 by (auto simp: I_def known_finite_def dist_bounded_def W_def)
  have step: "I (Suc j) ps'" if "I j ps" "Dijkstra_round mats loc_n ps = Inr ps'" for j ps ps'
  proof -
    from that(1) have wf: "wf_procs loc_n p ps" and kf: "known_finite ps loc_n n"
      and db: "W \<longrightarrow> dist_bounded ps loc_n n"
      by (simp_all add: I_def)
    from round_global [OF that(2) wf mats n]
    obtain min_dist u where wf': "wf_procs loc_n p ps'"
      and rs: "round_step mats loc_n n ps ps' min_dist u"
      and sel: "round_sel ps loc_n n min_dist u"
      by blast
    note b = bounds_round [OF rs sel n(3)]
    from b(1) [OF kf] have "known_finite ps' loc_n n" .
    moreover have "dist_bounded ps' loc_n n" if W
      using b(2) db that by (simp add: W_def)
    ultimately show ?thesis
      using wf' by (simp add: I_def)
  qed
  from for_loop_rule [of 1 i _ procs0 procs I, OF l init] step
  have "I (max 1 i) procs"
    by blast
  then show "known_finite procs loc_n n"
    and "\<forall>u<n. \<forall>v<n. 0 \<le> gmat mats loc_n u v \<and> gmat mats loc_n u v \<le> INFINITY \<Longrightarrow>
           dist_bounded procs loc_n n"
    by (simp_all add: I_def W_def)
qed

lemma Dijkstra_upto_total:
  assumes mats: "length mats = p" "\<forall>r<p. length (mats ! r) = n * loc_n"
    and n: "n = p * loc_n" "0 < p" "0 < loc_n" "int n * int n \<le> INT_MAX"
    and w: "\<forall>r<p. weights_ok (mats ! r)"
    and gm: "\<forall>u<n. \<forall>v<n. gmat mats loc_n u v = mat ! (u * n + v)"
    and wm: "weights_ok mat" and lm: "length mat = n * n"
    and prog: "\<forall>k. Suc k < i \<longrightarrow> spec_progress n mat k"
    and i: "1 \<le> i"
  shows "\<exists>procs. Dijkstra_upto mats loc_n i = Inr procs"
  using prog i
proof (induction i)
  case 0
  then show ?case by simp
next
  case (Suc i)
  note sn = small_n [OF n(4)]
  have n0: "0 < n"
    using n(1,2,3) by simp
  show ?case
  proof (cases "i = 0")
    case True
    from Dijkstra_start_total [OF mats n0 n(3)] show ?thesis
      by (auto simp: True Dijkstra_upto_def for_loop_done)
  next
    case False
    then have i1: "1 \<le> i"
      by simp
    from Suc.IH Suc.prems(1) i1 obtain procs where up: "Dijkstra_upto mats loc_n i = Inr procs"
      by auto
    from ginv_upto [OF up i1 mats n(1,2) sn] have wf: "wf_procs loc_n p procs"
      by simp
    have ge: "\<forall>u<n. \<forall>v<n. 0 \<le> gmat mats loc_n u v \<and> gmat mats loc_n u v \<le> INFINITY"
    proof (intro allI impI)
      fix u v
      assume uv: "u < n" "v < n"
      have "Suc u * n \<le> n * n"
        using uv(1) by (intro mult_le_mono1) simp
      with uv(2) have "u * n + v < length mat"
        using lm by simp
      then have "mat ! (u * n + v) \<in> set mat"
        by simp
      with wm gm uv show "0 \<le> gmat mats loc_n u v \<and> gmat mats loc_n u v \<le> INFINITY"
        by (simp add: weights_ok_def)
    qed
    from bounds_upto(2) [OF up i1 mats n(1,2) sn ge] have db: "dist_bounded procs loc_n n" .
    from sim_upto [OF up i1 mats n(1,2) sn gm]
    have sm: "(spec_round n mat ^^ (i - 1)) (spec_init n mat) =
        (map (gdist procs loc_n) [0..<n], map (gpred procs loc_n) [0..<n],
         map (\<lambda>v. gknown procs loc_n v \<noteq> 0) [0..<n])"
      by (simp add: sim_def)
    from Suc.prems(1) i1 have "spec_progress n mat (i - 1)"
      by simp
    then have pr: "can_progress procs loc_n n"
      unfolding spec_progress_def sm can_progress_def by auto
    from Dijkstra_round_total [OF wf mats n w db pr]
    obtain procs' where r: "Dijkstra_round mats loc_n procs = Inr procs'"
      by blast
    from up obtain procs0 where s: "Dijkstra_start mats loc_n = Inr procs0"
      and l: "for_loop 1 i (\<lambda>i. Dijkstra_round mats loc_n) procs0 = Inr procs"
      by (auto simp: Dijkstra_upto_def split: sum.splits)
    from for_loop_split [of 1 i "Suc i" "\<lambda>i. Dijkstra_round mats loc_n" procs0] i1 l r
    have "for_loop 1 (Suc i) (\<lambda>i. Dijkstra_round mats loc_n) procs0 = Inr procs'"
      by (simp add: for_loop_step for_loop_done)
    with s show ?thesis
      by (simp add: Dijkstra_upto_def)
  qed
qed


lemma spec_round_lengths:
  assumes "length (fst s) = n" and "length (snd (snd s)) = n"
  shows "length (fst (spec_round n mat s)) = n \<and> length (snd (snd (spec_round n mat s))) = n"
  using assms by (cases s) (auto simp: spec_round_def Let_def split: option.splits)

lemma spec_round_known:
  assumes "length (snd (snd s)) = n" and "v < n" and "snd (snd s) ! v"
  shows "snd (snd (spec_round n mat s)) ! v \<and> fst (spec_round n mat s) ! v = fst s ! v"
proof -
  obtain dist pred known where s: "s = (dist, pred, known)"
    by (cases s)
  show ?thesis
  proof (cases "spec_min dist (filter (\<lambda>v. \<not> known ! v) [0..<n])")
    case None
    with assms show ?thesis
      by (simp add: s spec_round_def)
  next
    case (Some a)
    obtain d u where a: "a = (d, u)"
      by (cases a)
    have "known[u := True] ! v"
      using assms by (cases "u = v") (simp_all add: s)
    with Some a assms(2) show ?thesis
      by (simp add: s spec_round_def Let_def)
  qed
qed

lemma spec_funpow_known:
  assumes "length (fst s) = n" and "length (snd (snd s)) = n" and "v < n" and "snd (snd s) ! v"
  shows "length (fst ((spec_round n mat ^^ m) s)) = n \<and>
         length (snd (snd ((spec_round n mat ^^ m) s))) = n \<and>
         snd (snd ((spec_round n mat ^^ m) s)) ! v \<and>
         fst ((spec_round n mat ^^ m) s) ! v = fst s ! v"
proof (induction m)
  case 0
  with assms show ?case by simp
next
  case (Suc m)
  from spec_round_lengths [where s = "(spec_round n mat ^^ m) s" and n = n and mat = mat]
    spec_round_known [where s = "(spec_round n mat ^^ m) s" and n = n and v = v and mat = mat]
    Suc assms(3)
  show ?case
    by simp
qed

lemma spec_funpow_lengths:
  "length (fst ((spec_round n mat ^^ m) (spec_init n mat))) = n \<and>
   length (snd (snd ((spec_round n mat ^^ m) (spec_init n mat)))) = n"
proof (induction m)
  case 0
  show ?case by (simp add: spec_init_def)
next
  case (Suc m)
  with spec_round_lengths [where s = "(spec_round n mat ^^ m) (spec_init n mat)" and n = n and mat = mat]
  show ?case
    by simp
qed

lemma spec_round_select:
  assumes len: "length (fst s) = n" "length (snd (snd s)) = n"
    and ex: "\<exists>v<n. \<not> snd (snd s) ! v"
    and far: "\<forall>v<n. \<not> snd (snd s) ! v \<longrightarrow> INFINITY \<le> fst s ! v"
  shows "\<exists>u<n. \<not> snd (snd s) ! u \<and> snd (snd (spec_round n mat s)) ! u \<and>
           INFINITY \<le> fst (spec_round n mat s) ! u"
proof -
  obtain dist pred known where s: "s = (dist, pred, known)"
    by (cases s)
  let ?cand = "filter (\<lambda>v. \<not> known ! v) [0..<n]"
  from ex have "?cand \<noteq> []"
    by (auto simp: s filter_empty_conv)
  then obtain d u where m: "spec_min dist ?cand = Some (d, u)"
    using spec_min_None [of dist ?cand] by (cases "spec_min dist ?cand") auto
  have srt: "sorted_wrt (<) ?cand"
    by (intro sorted_wrt_filter) simp
  from spec_min_Some [OF m srt] have u: "u < n" "\<not> known ! u" "d = dist ! u"
    by auto
  have "known[u := True] ! u"
    using u(1) len(2) by (simp add: s)
  with m u far show ?thesis
    by (intro exI [of _ u]) (simp add: s spec_round_def Let_def)
qed

lemma spec_progress_all:
  assumes n0: "0 < n"
    and fin: "\<forall>v. 0 < v \<and> v < n \<longrightarrow> fst (spec_seq_Dijkstra n mat) ! v < INFINITY"
    and k: "Suc k < n"
  shows "spec_progress n mat k"
proof (rule ccontr)
  assume np: "\<not> spec_progress n mat k"
  define s where "s = (spec_round n mat ^^ k) (spec_init n mat)"
  have len: "length (fst s) = n" "length (snd (snd s)) = n"
    using spec_funpow_lengths [where n = n and mat = mat and m = k] by (simp_all add: s_def)
  have k0: "snd (snd s) ! 0"
    using spec_funpow_known [where s = "spec_init n mat" and n = n and v = 0 and mat = mat and m = k] n0
    by (simp add: s_def spec_init_def)
  from np have "\<not> ((\<exists>v<n. \<not> snd (snd s) ! v \<and> fst s ! v < INFINITY) \<or>
      (\<forall>v<n. snd (snd s) ! v))"
    unfolding spec_progress_def s_def [symmetric] by (simp add: case_prod_beta)
  then have ex: "\<exists>v<n. \<not> snd (snd s) ! v"
    and far: "\<forall>v<n. \<not> snd (snd s) ! v \<longrightarrow> INFINITY \<le> fst s ! v"
    by (blast, meson not_less)
  from spec_round_select [OF len ex far, where mat = mat] obtain u where
    u: "u < n" "\<not> snd (snd s) ! u" "snd (snd (spec_round n mat s)) ! u"
      "INFINITY \<le> fst (spec_round n mat s) ! u"
    by blast
  from u(2) k0 have u0: "0 < u"
    by (cases u) auto
  define m where "m = n - 1 - Suc k"
  have "n - 1 = m + Suc k"
    using k by (simp add: m_def)
  then have "spec_seq_Dijkstra n mat = (spec_round n mat ^^ (m + Suc k)) (spec_init n mat)"
    by (simp only: spec_seq_Dijkstra_def)
  also have "\<dots> = (spec_round n mat ^^ m) ((spec_round n mat ^^ Suc k) (spec_init n mat))"
    by (simp only: funpow_add o_apply)
  also have "(spec_round n mat ^^ Suc k) (spec_init n mat) = spec_round n mat s"
    by (simp add: s_def)
  finally have "spec_seq_Dijkstra n mat = (spec_round n mat ^^ m) (spec_round n mat s)" .
  moreover from spec_round_lengths [OF len, where mat = mat]
    spec_funpow_known [where s = "spec_round n mat s" and n = n and v = u and mat = mat and m = m] u(1,3)
  have "fst ((spec_round n mat ^^ m) (spec_round n mat s)) ! u = fst (spec_round n mat s) ! u"
    by simp
  ultimately have "INFINITY \<le> fst (spec_seq_Dijkstra n mat) ! u"
    using u(4) by simp
  with fin u0 u(1) show False
    by (simp add: not_less [symmetric])
qed

text \<open>
  When the engine completes. For \<open>p\<close> dividing \<open>n\<close>, a matrix of \<open>n * n\<close> weights from 0 to
  \<open>INFINITY\<close> and \<open>n * n\<close> within \<^verbatim>\<open>int\<close>, lines 83 to 99 of \<^verbatim>\<open>main\<close> return exactly
  when the sequential reference ends with every vertex other than the source below
  \<open>INFINITY\<close>. On every other such matrix a pass selects the value \<open>INFINITY\<close> as a
  vertex, and the read of its row fails.
\<close>

theorem main_run_completes_iff:
  assumes p: "0 < p" "p dvd n" and n0: "0 < n" and len: "length mat = n * n"
    and sz: "int n * int n \<le> INT_MAX" and wm: "weights_ok mat"
  shows "(\<exists>procs. main_run p n mat = Inr procs) \<longleftrightarrow>
         (\<forall>v. 0 < v \<and> v < n \<longrightarrow> fst (spec_seq_Dijkstra n mat) ! v < INFINITY)"
proof
  assume "\<exists>procs. main_run p n mat = Inr procs"
  then obtain procs where run: "main_run p n mat = Inr procs"
    by blast
  define loc_n where "loc_n = n div p"
  from main_run_parts [OF run p len] obtain loc_mats where
    up: "Dijkstra_upto loc_mats loc_n n = Inr procs"
    and lm: "length loc_mats = p" "\<forall>r<p. length (loc_mats ! r) = n * loc_n"
    and n: "n = p * loc_n" "int n \<le> INFINITY"
    unfolding loc_n_def by metis
  from n0 have n1: "1 \<le> n"
    by simp
  from ginv_upto [OF up n1 lm n(1) p(1) n(2)]
  have gi: "ginv loc_mats loc_n n n procs"
    by simp
  from gi have "n \<le> card {v. v < n \<and> gknown procs loc_n v \<noteq> 0}"
    by (simp add: ginv_def)
  moreover have "card {v. v < n \<and> gknown procs loc_n v \<noteq> 0} \<le> card {v. v < n}"
    by (intro card_mono) auto
  ultimately have "card {v. v < n \<and> gknown procs loc_n v \<noteq> 0} = card {v. v < n}"
    by simp
  then have "{v. v < n \<and> gknown procs loc_n v \<noteq> 0} = {v. v < n}"
    by (intro card_subset_eq) auto
  then have all: "gknown procs loc_n v \<noteq> 0" if "v < n" for v
    using that by blast
  from bounds_upto(1) [OF up n1 lm n(1) p(1) n(2)] have kf: "known_finite procs loc_n n" .
  from completed_engine_matches_reference [OF p len run]
  have eq: "fst (spec_seq_Dijkstra n mat) = map (gdist procs loc_n) [0..<n]"
    by (simp add: loc_n_def)
  show "\<forall>v. 0 < v \<and> v < n \<longrightarrow> fst (spec_seq_Dijkstra n mat) ! v < INFINITY"
  proof (intro allI impI)
    fix v
    assume v: "0 < v \<and> v < n"
    with kf all [of v] have "gdist procs loc_n v < INFINITY"
      by (simp add: known_finite_def)
    with v show "fst (spec_seq_Dijkstra n mat) ! v < INFINITY"
      by (simp add: eq)
  qed
next
  assume fin: "\<forall>v. 0 < v \<and> v < n \<longrightarrow> fst (spec_seq_Dijkstra n mat) ! v < INFINITY"
  define loc_n where "loc_n = n div p"
  have n: "n = p * loc_n"
    using p(2) by (simp add: loc_n_def)
  then have le: "p * loc_n \<le> n"
    by simp
  from n n0 have l0: "0 < loc_n"
    by (cases loc_n) auto
  define loc_mats where "loc_mats =
    map (\<lambda>k. map (\<lambda>m. mat ! (k * loc_n + ((m div loc_n) * n + m mod loc_n)))
                  [0..<n * loc_n]) [0..<p]"
  from Read_matrix_spec [OF le len sz]
  have r: "Read_matrix mat n loc_n (Build_blk_col_type n loc_n) p = Inr loc_mats"
    by (simp add: loc_mats_def)
  have lm: "length loc_mats = p" "\<forall>r<p. length (loc_mats ! r) = n * loc_n"
    by (simp_all add: loc_mats_def)
  have w: "\<forall>r<p. weights_ok (loc_mats ! r)"
  proof (intro allI impI)
    fix r
    assume r: "r < p"
    have "mat ! (r * loc_n + ((m div loc_n) * n + m mod loc_n)) \<in> set mat" if "m < n * loc_n" for m
      using blk_col_bound [OF le r that] len by simp
    with wm r show "weights_ok (loc_mats ! r)"
      by (auto simp: loc_mats_def weights_ok_def)
  qed
  have gm: "\<forall>u<n. \<forall>v<n. gmat loc_mats loc_n u v = mat ! (u * n + v)"
  proof (intro allI impI)
    fix u v
    assume u: "u < n" and v: "v < n"
    note vs = vertex_split [OF n v]
    from Read_matrix_entry(3) [OF r le len vs(1) u vs(2)]
    show "gmat loc_mats loc_n u v = mat ! (u * n + v)"
      by (simp add: gmat_def)
  qed
  have prog: "\<forall>k. Suc k < n \<longrightarrow> spec_progress n mat k"
    using spec_progress_all [OF n0 fin] by blast
  from n0 have n1: "1 \<le> n"
    by simp
  from Dijkstra_upto_total [OF lm n p(1) l0 sz w gm wm len prog n1]
  obtain procs where "Dijkstra_upto loc_mats loc_n n = Inr procs"
    by blast
  with r show "\<exists>procs. main_run p n mat = Inr procs"
    by (simp add: main_run_def Let_def loc_n_def [symmetric] Dijkstra_upto_n)
qed
section \<open>The paths\<close>

lemma Read_matrix_parts:
  assumes r: "Read_matrix mat n (n div p) (Build_blk_col_type n (n div p)) p = Inr loc_mats"
    and p: "0 < p" "p dvd n" and len: "length mat = n * n"
  shows "length loc_mats = p" and "\<forall>r<p. length (loc_mats ! r) = n * (n div p)"
    and "n = p * (n div p)" and "int n \<le> INFINITY"
proof -
  show n: "n = p * (n div p)"
    using p(2) by simp
  then have le: "p * (n div p) \<le> n"
    by simp
  from r have sz: "int n * int n \<le> INT_MAX"
    by (auto simp: Read_matrix_def c_int_def split: if_splits)
  then show "int n \<le> INFINITY"
    by (rule small_n)
  from Read_matrix_spec [OF le len sz] r
  have eq: "loc_mats = map (\<lambda>k. map (\<lambda>m. mat ! (k * (n div p) + ((m div (n div p)) * n + m mod (n div p))))
                             [0..<n * (n div p)]) [0..<p]"
    by simp
  show "length loc_mats = p"
    by (subst eq) simp
  show "\<forall>r<p. length (loc_mats ! r) = n * (n div p)"
    by (subst eq) simp
qed

lemma reach_funpow:
  assumes "reach P n v k"
  shows "((\<lambda>w. nat (P w)) ^^ k) v = 0"
  using assms by (induction rule: reach.induct) (simp_all add: funpow_Suc_right del: funpow.simps)

lemma path_loop_reach:
  assumes "reach P n v k" and "length pred = n" and "\<forall>x<n. pred ! x = Some (P x)"
    and "length path = n" and "cnt + k \<le> n"
  shows "\<exists>path'. path_loop pred path cnt (int v) = Some (Inr (path', cnt + k)) \<and>
           length path' = n \<and>
           take (cnt + k) path' =
             take cnt path @ map (\<lambda>i. int (((\<lambda>w. nat (P w)) ^^ i) v)) [0..<k]"
  using assms(1,4,5)
proof (induction arbitrary: path cnt rule: reach.induct)
  case reach_source
  have "path_loop pred path cnt (int 0) = Some (Inr (path, cnt))"
    by (subst path_loop.simps) simp
  with reach_source show ?case
    by simp
next
  case (reach_step v k)
  let ?F = "\<lambda>w. nat (P w)"
  from reach_step.prems have c: "cnt < length path"
    by simp
  have v: "int v \<noteq> 0" "rdo pred (int v) = Inr (P v)"
    using reach_step.hyps(1,2) assms(2,3) by (simp_all add: rdo_nat)
  have w: "wr path (int cnt) (int v) = Inr (path[cnt := int v])"
    using c by (simp add: wr_nat)
  have "path_loop pred path cnt (int v) =
      path_loop pred (path[cnt := int v]) (Suc cnt) (int (?F v))"
    using v w reach_step.hyps(3) by (subst path_loop.simps) simp
  moreover from reach_step.IH [of "path[cnt := int v]" "Suc cnt"] reach_step.prems
  obtain path' where
    "path_loop pred (path[cnt := int v]) (Suc cnt) (int (?F v)) = Some (Inr (path', Suc cnt + k))"
    "length path' = n"
    "take (Suc cnt + k) path' =
       take (Suc cnt) (path[cnt := int v]) @ map (\<lambda>i. int ((?F ^^ i) (?F v))) [0..<k]"
    by auto
  moreover have "take (Suc cnt) (path[cnt := int v]) = take cnt path @ [int v]"
    using c by (simp add: take_Suc_conv_app_nth)
  moreover have "map (\<lambda>i. int ((?F ^^ i) v)) [0..<Suc k] =
      int v # map (\<lambda>i. int ((?F ^^ i) (?F v))) [0..<k]"
    by (simp only: map_upt_Suc) (simp add: funpow_Suc_right del: funpow.simps)
  ultimately show ?case
    by simp
qed

lemma Print_path_reach:
  assumes "reach P n v k" and "length pred = n" and "\<forall>x<n. pred ! x = Some (P x)"
    and "k \<le> n"
  shows "Print_path pred n v =
           Some (Inr (0 # rev (map (\<lambda>i. int (((\<lambda>w. nat (P w)) ^^ i) v)) [0..<k])))"
proof -
  from path_loop_reach [OF assms(1,2,3), of "replicate n 0" 0] assms(4)
  obtain path' where "path_loop pred (replicate n 0) 0 (int v) = Some (Inr (path', k))"
    "take k path' = map (\<lambda>i. int (((\<lambda>w. nat (P w)) ^^ i) v)) [0..<k]"
    by auto
  then show ?thesis
    by (simp add: Print_path_def)
qed

section \<open>No statement raises a configuration error\<close>

lemma rd_no_config: "rd a i \<noteq> Inl ConfigError" "Inl ConfigError \<noteq> rd a i"
  by (simp_all add: rd_def)

lemma wr_no_config: "wr a i x \<noteq> Inl ConfigError" "Inl ConfigError \<noteq> wr a i x"
  by (simp_all add: wr_def)

lemma rdo_no_config: "rdo a i \<noteq> Inl ConfigError" "Inl ConfigError \<noteq> rdo a i"
  by (simp_all add: rdo_def split: option.splits)

lemma wro_no_config: "wro a i x \<noteq> Inl ConfigError" "Inl ConfigError \<noteq> wro a i x"
  by (simp_all add: wro_def)

lemma c_int_no_config: "c_int x \<noteq> Inl ConfigError" "Inl ConfigError \<noteq> c_int x"
  by (simp_all add: c_int_def)

lemma all_ok_no_config:
  "(\<And>x. x \<in> set xs \<Longrightarrow> x \<noteq> Inl ConfigError) \<Longrightarrow> all_ok xs \<noteq> Inl ConfigError"
  by (induction xs) (auto split: sum.splits)

lemma for_loop_no_config:
  assumes "\<And>v t. body v t \<noteq> Inl ConfigError"
  shows "for_loop i n body s \<noteq> Inl ConfigError"
  using assms
proof (induction i n body s rule: for_loop.induct)
  case (1 i n body s)
  show ?case
  proof (cases "i < n")
    case False
    then show ?thesis by (simp add: for_loop_done)
  next
    case True
    show ?thesis
    proof (cases "body i s")
      case (Inl e)
      with True "1.prems" [of i s] show ?thesis
        by (auto simp: for_loop_step)
    next
      case (Inr t)
      with True "1.IH" [OF True Inr "1.prems"] show ?thesis
        by (simp add: for_loop_step)
    qed
  qed
qed

lemma path_loop_no_config:
  assumes "path_loop pred path cnt w = Some r"
  shows "r \<noteq> Inl ConfigError"
  by (rule path_loop.raw_induct [where P = "\<lambda>pred path cnt w r. r \<noteq> Inl ConfigError", OF _ assms])
    (auto simp: wr_no_config rdo_no_config split: if_splits sum.splits)

lemma Find_min_dist_no_config: "Find_min_dist d k loc_n \<noteq> Inl ConfigError"
proof -
  have "for_loop 0 loc_n
          (\<lambda>loc_v (loc_u, loc_min_dist).
                case rd k (int loc_v) of Inl e \<Rightarrow> Inl e
                | Inr kv \<Rightarrow>
                    if kv = 0
                    then (case rd d (int loc_v) of Inl e \<Rightarrow> Inl e
                          | Inr dv \<Rightarrow>
                              if dv < loc_min_dist then Inr (int loc_v, dv)
                              else Inr (loc_u, loc_min_dist))
                    else Inr (loc_u, loc_min_dist)) (INFINITY, INFINITY) \<noteq> Inl ConfigError"
    by (rule for_loop_no_config) (auto simp: rd_no_config split: sum.splits prod.splits)
  then show ?thesis
    by (auto simp: Find_min_dist_def split: sum.splits)
qed

lemma my_min_no_config: "my_min d k loc_n r \<noteq> Inl ConfigError"
  using Find_min_dist_no_config [of d k loc_n]
  by (auto simp: my_min_def rd_no_config c_int_no_config split: sum.splits)

lemma relax_no_config: "relax mat loc_n min_dist u v s \<noteq> Inl ConfigError"
  by (auto simp: relax_def rd_no_config wr_no_config c_int_no_config split: sum.splits)

lemma Dijkstra_update_no_config: "Dijkstra_update mat loc_n r g s \<noteq> Inl ConfigError"
  using for_loop_no_config [of "relax mat loc_n (fst g) (snd g)", OF relax_no_config]
  by (auto simp: Dijkstra_update_def Let_def wr_no_config split: sum.splits)

lemma Dijkstra_round_no_config: "Dijkstra_round mats loc_n procs \<noteq> Inl ConfigError"
proof -
  have a: "all_ok (map (\<lambda>r. my_min (loc_dist (procs ! r)) (known (procs ! r)) loc_n r)
                       [0..<length procs]) \<noteq> Inl ConfigError"
    by (rule all_ok_no_config) (auto simp: my_min_no_config)
  have b: "all_ok (map (\<lambda>r. Dijkstra_update (mats ! r) loc_n r (g ! r) (procs ! r))
                          [0..<length procs]) \<noteq> Inl ConfigError" for g
    by (rule all_ok_no_config) (auto simp: Dijkstra_update_no_config)
  from a b show ?thesis
    by (auto simp: Dijkstra_round_def Let_def split: sum.splits)
qed

lemma Dijkstra_init_no_config: "Dijkstra_init mat loc_n r \<noteq> Inl ConfigError"
proof -
  have "all_ok (map (\<lambda>v. rd mat (int (0 * loc_n + v))) [0..<loc_n]) \<noteq> Inl ConfigError"
    by (rule all_ok_no_config) (auto simp: rd_no_config)
  then show ?thesis
    by (auto simp: Dijkstra_init_def wr_no_config split: sum.splits)
qed

lemma Dijkstra_no_config: "Dijkstra mats loc_n n \<noteq> Inl ConfigError"
proof -
  have "Dijkstra_start mats loc_n \<noteq> Inl ConfigError"
    unfolding Dijkstra_start_def
    by (rule all_ok_no_config) (auto simp: Dijkstra_init_no_config)
  with for_loop_no_config [of "\<lambda>i. Dijkstra_round mats loc_n", OF Dijkstra_round_no_config]
  show ?thesis
    by (auto simp: Dijkstra_def split: sum.splits)
qed

lemma MPI_Scatter_no_config: "MPI_Scatter sendbuf T p \<noteq> Inl ConfigError"
  unfolding MPI_Scatter_def
  by (rule all_ok_no_config) (auto intro!: all_ok_no_config simp: rd_no_config)

lemma MPI_Gather_no_config: "MPI_Gather sendbufs T buf \<noteq> Inl ConfigError"
  unfolding MPI_Gather_def
  by (intro for_loop_no_config) (auto simp: rd_no_config wro_no_config split: sum.splits)

lemma main_run_no_config: "main_run p n mat \<noteq> Inl ConfigError"
  using MPI_Scatter_no_config Dijkstra_no_config
  by (auto simp: main_run_def Let_def Read_matrix_def c_int_no_config split: sum.splits)

lemma Print_dists_no_config: "Print_dists ds n loc_n \<noteq> Inl ConfigError"
proof -
  have "all_ok (map (\<lambda>v. rdo dist (int v)) [1..<n]) \<noteq> Inl ConfigError" for dist
    by (rule all_ok_no_config) (auto simp: rdo_no_config)
  with MPI_Gather_no_config show ?thesis
    by (auto simp: Print_dists_def split: sum.splits)
qed

lemma Print_lines_no_config:
  "Print_lines pred n vs \<noteq> Some (Inl ConfigError)"
proof (induction vs)
  case Nil
  show ?case by simp
next
  case (Cons v vs)
  have "Print_path pred n v \<noteq> Some (Inl ConfigError)"
    using path_loop_no_config [of pred "replicate n 0" 0 "int v"]
    by (auto simp: Print_path_def split: option.splits sum.splits)
  with Cons show ?case
    by (auto split: option.splits sum.splits)
qed

lemma main_no_config: "main p n mat \<noteq> Some (Inl ConfigError)"
proof -
  have "Print_paths ps n l \<noteq> Some (Inl ConfigError)" for ps l
    using MPI_Gather_no_config Print_lines_no_config
    by (auto simp: Print_paths_def split: sum.splits)
  with main_run_no_config Print_dists_no_config show ?thesis
    by (auto simp: main_def Let_def split: sum.splits option.splits)
qed

section \<open>The claims about the passes of the main loop\<close>

text \<open>
  Claim C9. In one pass of the main loop the distance of every vertex is left as it was
  or replaced by a strictly smaller value.
\<close>

theorem dist_never_increases:
  assumes "Dijkstra_round mats loc_n procs = Inr procs'" and "v < length procs * loc_n"
  shows "gdist procs' loc_n v = gdist procs loc_n v \<or> gdist procs' loc_n v < gdist procs loc_n v"
proof -
  note vs = vertex_split [OF refl assms(2)]
  from Dijkstra_round_spec [OF assms(1)] vs(1) obtain g where
    "Dijkstra_update (mats ! (v div loc_n)) loc_n (v div loc_n) g (procs ! (v div loc_n)) =
       Inr (procs' ! (v div loc_n))"
    by blast
  from Dijkstra_update_spec(7) [of _ _ _ "fst g" "snd g", unfolded prod.collapse, OF this] vs(2)
  have "relaxed (mats ! (v div loc_n)) loc_n (fst g) (snd g)
          ((procs ! (v div loc_n))\<lparr>known := known (procs' ! (v div loc_n))\<rparr>)
          (procs' ! (v div loc_n)) (v mod loc_n)"
    by blast
  then show ?thesis
    by (auto simp: relaxed_def gdist_def split: if_splits)
qed

theorem dist_never_increases_witness:
  "gdist [\<lparr>loc_dist = [0, 5], loc_pred = [0, 2], known = [1, 0]\<rparr>,
          \<lparr>loc_dist = [2, 3], loc_pred = [0, 2], known = [1, 0]\<rparr>] 2 1 <
   gdist [\<lparr>loc_dist = [0, 10], loc_pred = [0, 0], known = [1, 0]\<rparr>,
          \<lparr>loc_dist = [2, 1000000], loc_pred = [0, 0], known = [0, 0]\<rparr>] 2 1"
proof -
  let ?procs = "[\<lparr>loc_dist = [0, 10], loc_pred = [0, 0], known = [1, 0]\<rparr>,
                 \<lparr>loc_dist = [2, 1000000], loc_pred = [0, 0], known = [0, 0]\<rparr>]"
  let ?procs' = "[\<lparr>loc_dist = [0, 5], loc_pred = [0, 2], known = [1, 0]\<rparr>,
                  \<lparr>loc_dist = [2, 3], loc_pred = [0, 2], known = [1, 0]\<rparr>]"
  have h1: "Dijkstra_round [[0, 10, 4, 0, 7, 3, 8, 7], [2, 1000000, 5, 6, 0, 1, 6, 0]] 2 ?procs =
      Inr ?procs'"
    by code_simp
  have h2: "1 < length ?procs * 2"
    by simp
  have ne: "gdist ?procs' 2 1 \<noteq> gdist ?procs 2 1"
    by (simp add: gdist_def)
  from dist_never_increases [OF h1 h2] ne show ?thesis
    by blast
qed

text \<open>
  The array \<^verbatim>\<open>known\<close> in the runs that complete. In one pass of the main loop no element
  of \<^verbatim>\<open>known\<close> of any process goes back from set to 0; and when \<^verbatim>\<open>Dijkstra\<close> returns,
  for \<open>p\<close> dividing \<open>n\<close>, every element of \<^verbatim>\<open>known\<close> of every process is set: the \<open>p\<close>
  processes with \<open>n div p\<close> elements each cover the \<open>n\<close> vertices. By
  \<open>main_run_completes_iff\<close> these are the runs on matrices that leave no vertex at
  \<open>INFINITY\<close>.
\<close>

theorem known_never_cleared_and_complete:
  assumes "0 < p" and "p dvd n" and "length mat = n * n" and "main_run p n mat = Inr procs"
  shows "length procs = p \<and>
         (\<forall>r<p. length (known (procs ! r)) = n div p \<and>
                 (\<forall>j<n div p. known (procs ! r) ! j \<noteq> 0)) \<and>
         (\<forall>mats loc_n ps ps' r j.
            Dijkstra_round mats loc_n ps = Inr ps' \<and> r < length ps \<and>
            j < length (known (ps ! r)) \<and> known (ps ! r) ! j \<noteq> 0 \<longrightarrow>
            known (ps' ! r) ! j \<noteq> 0)"
proof -
  define loc_n where "loc_n = n div p"
  from main_run_parts [OF assms(4,1,2,3)] obtain loc_mats where
    up: "Dijkstra_upto loc_mats loc_n n = Inr procs"
    and lm: "length loc_mats = p" "\<forall>r<p. length (loc_mats ! r) = n * loc_n"
    and n: "n = p * loc_n" "int n \<le> INFINITY" "0 < n"
    unfolding loc_n_def by metis
  from ginv_upto [OF up _ lm n(1) assms(1) n(2)] n(3)
  have wf: "wf_procs loc_n p procs" and gi: "ginv loc_mats loc_n n n procs"
    by simp_all
  from gi have "n \<le> card {v. v < n \<and> gknown procs loc_n v \<noteq> 0}"
    by (simp add: ginv_def)
  moreover have "card {v. v < n \<and> gknown procs loc_n v \<noteq> 0} \<le> card {v. v < n}"
    by (intro card_mono) auto
  ultimately have "card {v. v < n \<and> gknown procs loc_n v \<noteq> 0} = card {v. v < n}"
    by simp
  then have "{v. v < n \<and> gknown procs loc_n v \<noteq> 0} = {v. v < n}"
    by (intro card_subset_eq) auto
  then have all: "gknown procs loc_n v \<noteq> 0" if "v < n" for v
    using that by blast
  have cover: "known (procs ! r) ! j \<noteq> 0" if "r < p" "j < loc_n" for r j
  proof -
    note vj = vertex_join [OF that]
    from all [of "r * loc_n + j"] vj n(1) show ?thesis
      by (simp add: gknown_def)
  qed
  have keep: "known (ps' ! r) ! j \<noteq> 0"
    if "Dijkstra_round mats l ps = Inr ps'" "r < length ps"
      "j < length (known (ps ! r))" "known (ps ! r) ! j \<noteq> 0" for mats l ps ps' r j
  proof -
    from Dijkstra_round_spec [OF that(1)] that(2) obtain g where
      "Dijkstra_update (mats ! r) l r g (ps ! r) = Inr (ps' ! r)"
      by blast
    from Dijkstra_update_spec(2) [of _ _ _ "fst g" "snd g", unfolded prod.collapse, OF this]
    have "known (ps' ! r) = known (ps ! r) \<or>
        known (ps' ! r) = (known (ps ! r))[nat (snd g smod int l) := 1]"
      by (auto split: if_splits)
    then show ?thesis
    proof
      assume "known (ps' ! r) = known (ps ! r)"
      with that(4) show ?thesis by simp
    next
      assume e: "known (ps' ! r) = (known (ps ! r))[nat (snd g smod int l) := 1]"
      show ?thesis
        using that(3,4) unfolding e by (cases "nat (snd g smod int l) = j") simp_all
    qed
  qed
  from wf cover keep show ?thesis
    unfolding loc_n_def wf_procs_def by blast
qed

theorem known_never_cleared_and_complete_witness:
  "length [\<lparr>loc_dist = [0, 5], loc_pred = [0, 2], known = [1, 1]\<rparr>,
           \<lparr>loc_dist = [2, 3], loc_pred = [0, 2], known = [1, 1]\<rparr>] = 2 \<and>
   known ([\<lparr>loc_dist = [0, 5], loc_pred = [0, 2], known = [1, 1]\<rparr>,
           \<lparr>loc_dist = [2, 3], loc_pred = [0, 2], known = [1, 1]\<rparr>] ! 1) ! 1 \<noteq> 0"
proof -
  let ?mat = "[0, 10, 2, 1000000, 4, 0, 5, 6, 7, 3, 0, 1, 8, 7, 6, 0 :: int]"
  have h: "(0::nat) < 2" "(2::nat) dvd 4" "length ?mat = 4 * 4"
    by simp_all
  have run: "main_run 2 4 ?mat =
      Inr [\<lparr>loc_dist = [0, 5], loc_pred = [0, 2], known = [1, 1]\<rparr>,
           \<lparr>loc_dist = [2, 3], loc_pred = [0, 2], known = [1, 1]\<rparr>]"
    by code_simp
  have b: "(1::nat) < 2" "(1::nat) < 4 div 2"
    by simp_all
  from known_never_cleared_and_complete [OF h run] b show ?thesis
    by blast
qed

text \<open>
  Claim C8. At every round boundary of a run with \<open>p\<close> dividing \<open>n\<close>, that is, whenever the
  loop counter has a value \<open>i\<close> from 1 to \<open>n\<close>, following the predecessors from any vertex
  \<open>v\<close> arrives at the source 0 after at most \<open>i\<close> steps; the predecessors can be
  gathered and the loop of \<^verbatim>\<open>Print_paths\<close> terminates for \<open>v\<close> without leaving its arrays,
  giving 0 followed by the vertices passed in the order from the source to \<open>v\<close>.
\<close>

theorem pred_reaches_source:
  assumes "0 < p" and "p dvd n" and "length mat = n * n"
    and "Read_matrix mat n (n div p) (Build_blk_col_type n (n div p)) p = Inr loc_mats"
    and "Dijkstra_upto loc_mats (n div p) i = Inr procs" and "1 \<le> i" and "i \<le> n"
    and "v < n"
  shows "\<exists>k\<le>i. ((\<lambda>w. nat (gpred procs (n div p) w)) ^^ k) v = 0 \<and>
           (\<exists>pred. MPI_Gather (map loc_pred procs) (MPI_Type_contiguous (n div p))
                      (replicate n None) = Inr pred \<and>
                    Print_path pred n v =
                      Some (Inr (0 # rev (map (\<lambda>j. int (((\<lambda>w. nat (gpred procs (n div p) w)) ^^ j) v))
                                              [0..<k]))))"
proof -
  define loc_n where "loc_n = n div p"
  note rp = Read_matrix_parts [OF assms(4,1,2,3), folded loc_n_def]
  from ginv_upto [OF assms(5) [folded loc_n_def] assms(6) rp(1,2,3) assms(1) rp(4)]
  have wf: "wf_procs loc_n p procs" and gi: "ginv loc_mats loc_n n i procs"
    by simp_all
  from gi assms(8) obtain k where k: "k \<le> i" "reach (gpred procs loc_n) n v k"
    unfolding ginv_def by blast
  define pred where "pred = map (\<lambda>v. Some (gpred procs loc_n v)) [0..<n]"
  have "length (map loc_pred procs) = p" "\<forall>r<p. length (map loc_pred procs ! r) = loc_n"
    using wf by (simp_all add: wf_procs_def)
  from Gather_vector [OF this rp(3)] wf
  have g: "MPI_Gather (map loc_pred procs) (MPI_Type_contiguous loc_n) (replicate n None) =
      Inr pred"
    by (simp add: pred_def gpred_def wf_procs_def vertex_split [OF rp(3)] cong: map_cong)
  have "length pred = n" "\<forall>x<n. pred ! x = Some (gpred procs loc_n x)"
    by (simp_all add: pred_def)
  from Print_path_reach [OF k(2) this] k(1) assms(7)
  have "Print_path pred n v =
      Some (Inr (0 # rev (map (\<lambda>j. int (((\<lambda>w. nat (gpred procs loc_n w)) ^^ j) v)) [0..<k])))"
    by simp
  with reach_funpow [OF k(2)] k(1) g show ?thesis
    unfolding loc_n_def by blast
qed

theorem pred_reaches_source_witness:
  "\<exists>k\<le>4. ((\<lambda>w. nat (gpred [\<lparr>loc_dist = [0, 5], loc_pred = [0, 2], known = [1, 1]\<rparr>,
                            \<lparr>loc_dist = [2, 3], loc_pred = [0, 2], known = [1, 1]\<rparr>] (4 div 2) w)) ^^ k) 1 = 0 \<and>
     (\<exists>pred. MPI_Gather (map loc_pred [\<lparr>loc_dist = [0, 5], loc_pred = [0, 2], known = [1, 1]\<rparr>,
                            \<lparr>loc_dist = [2, 3], loc_pred = [0, 2], known = [1, 1]\<rparr>])
                (MPI_Type_contiguous (4 div 2)) (replicate 4 None) = Inr pred \<and>
              Print_path pred 4 1 =
                Some (Inr (0 # rev (map (\<lambda>j. int (((\<lambda>w. nat (gpred [\<lparr>loc_dist = [0, 5], loc_pred = [0, 2], known = [1, 1]\<rparr>,
                            \<lparr>loc_dist = [2, 3], loc_pred = [0, 2], known = [1, 1]\<rparr>] (4 div 2) w)) ^^ j) 1))
                                        [0..<k]))))"
proof -
  let ?mat = "[0, 10, 2, 1000000, 4, 0, 5, 6, 7, 3, 0, 1, 8, 7, 6, 0 :: int]"
  have h: "(0::nat) < 2" "(2::nat) dvd 4" "length ?mat = 4 * 4"
    by simp_all
  have r: "Read_matrix ?mat 4 (4 div 2) (Build_blk_col_type 4 (4 div 2)) 2 =
      Inr [[0, 10, 4, 0, 7, 3, 8, 7], [2, 1000000, 5, 6, 0, 1, 6, 0]]"
    by code_simp
  have u: "Dijkstra_upto [[0, 10, 4, 0, 7, 3, 8, 7], [2, 1000000, 5, 6, 0, 1, 6, 0]] (4 div 2) 4 =
      Inr [\<lparr>loc_dist = [0, 5], loc_pred = [0, 2], known = [1, 1]\<rparr>,
           \<lparr>loc_dist = [2, 3], loc_pred = [0, 2], known = [1, 1]\<rparr>]"
    by code_simp
  have b: "(1::nat) \<le> 4" "(4::nat) \<le> 4" "(1::nat) < 4"
    by simp_all
  show ?thesis
    by (rule pred_reaches_source [OF h r u b])
qed

text \<open>
  Claim C7, as the code has it. When \<^verbatim>\<open>Dijkstra\<close> has returned in a run with \<open>p\<close> dividing
  \<open>n\<close>, the distances and predecessors can be gathered, and for every vertex \<open>v\<close> other
  than the source the predecessor is a vertex and the distance of \<open>v\<close> is the distance of
  its predecessor plus the weight of the edge from the predecessor to \<open>v\<close> in the input
  matrix, where the distance of the source counts as 0: the element 0 of the gathered
  distances holds the diagonal entry \<^verbatim>\<open>mat[0][0]\<close>.
\<close>

theorem path_cost_consistency:
  assumes "0 < p" and "p dvd n" and "length mat = n * n" and "main_run p n mat = Inr procs"
  shows "\<exists>dist pred.
           MPI_Gather (map loc_dist procs) (MPI_Type_contiguous (n div p)) (replicate n None) =
             Inr (map Some dist) \<and>
           MPI_Gather (map loc_pred procs) (MPI_Type_contiguous (n div p)) (replicate n None) =
             Inr (map Some pred) \<and>
           length dist = n \<and> length pred = n \<and> dist ! 0 = mat ! 0 \<and>
           (\<forall>v. 0 < v \<and> v < n \<longrightarrow>
              0 \<le> pred ! v \<and> pred ! v < int n \<and>
              dist ! v =
                (if pred ! v = 0 then 0 else dist ! nat (pred ! v)) +
                mat ! (nat (pred ! v) * n + v))"
proof -
  define loc_n where "loc_n = n div p"
  from main_run_parts [OF assms(4,1,2,3)] obtain loc_mats where
    up: "Dijkstra_upto loc_mats loc_n n = Inr procs"
    and lm: "length loc_mats = p" "\<forall>r<p. length (loc_mats ! r) = n * loc_n"
    and n: "n = p * loc_n" "int n \<le> INFINITY" "0 < n"
    and gm: "\<forall>u<n. \<forall>v<n. gmat loc_mats loc_n u v = mat ! (u * n + v)"
    unfolding loc_n_def by metis
  from ginv_upto [OF up _ lm n(1) assms(1) n(2)] n(3)
  have wf: "wf_procs loc_n p procs" and gi: "ginv loc_mats loc_n n n procs"
    by simp_all
  define dist where "dist = map (gdist procs loc_n) [0..<n]"
  define pred where "pred = map (gpred procs loc_n) [0..<n]"
  have "length (map loc_dist procs) = p" "\<forall>r<p. length (map loc_dist procs ! r) = loc_n"
    using wf by (simp_all add: wf_procs_def)
  from Gather_vector [OF this n(1)] wf
  have gd: "MPI_Gather (map loc_dist procs) (MPI_Type_contiguous loc_n) (replicate n None) =
      Inr (map Some dist)"
    by (simp add: dist_def gdist_def wf_procs_def vertex_split [OF n(1)] comp_def cong: map_cong)
  have "length (map loc_pred procs) = p" "\<forall>r<p. length (map loc_pred procs ! r) = loc_n"
    using wf by (simp_all add: wf_procs_def)
  from Gather_vector [OF this n(1)] wf
  have gp: "MPI_Gather (map loc_pred procs) (MPI_Type_contiguous loc_n) (replicate n None) =
      Inr (map Some pred)"
    by (simp add: pred_def gpred_def wf_procs_def vertex_split [OF n(1)] comp_def cong: map_cong)
  have d0: "dist ! 0 = mat ! 0"
  proof -
    from up obtain procs0 where s: "Dijkstra_start loc_mats loc_n = Inr procs0"
      and l: "for_loop 1 n (\<lambda>i. Dijkstra_round loc_mats loc_n) procs0 = Inr procs"
      by (auto simp: Dijkstra_upto_def split: sum.splits)
    define I where "I (j :: nat) ps \<longleftrightarrow> wf_procs loc_n p ps \<and> gknown ps loc_n 0 \<noteq> 0 \<and>
        gdist ps loc_n 0 = mat ! 0" for j ps
    note st = Dijkstra_start_spec [OF s lm(1) n(1) assms(1)]
    have init: "I 1 procs0"
      using st(1) st(3) n(3) gm by (simp add: I_def)
    have step: "I (Suc j) ps'" if "I j ps" "Dijkstra_round loc_mats loc_n ps = Inr ps'" for j ps ps'
    proof -
      from that(1) have w: "wf_procs loc_n p ps" and k: "gknown ps loc_n 0 \<noteq> 0"
        and d: "gdist ps loc_n 0 = mat ! 0"
        by (simp_all add: I_def)
      from round_global [OF that(2) w lm n(1) assms(1) n(2)]
      obtain min_dist u where w': "wf_procs loc_n p ps'"
        and rs: "round_step loc_mats loc_n n ps ps' min_dist u"
        by blast
      from rs n(3) k have k': "gknown ps' loc_n 0 \<noteq> 0"
        unfolding round_step_def by auto
      with rs n(3) d have "gdist ps' loc_n 0 = mat ! 0"
        unfolding round_step_def by auto
      with w' k' show ?thesis
        by (simp add: I_def)
    qed
    from for_loop_rule [of 1 n _ procs0 procs I, OF l init] step
    have "I (max 1 n) procs"
      by blast
    then show ?thesis
      using n(3) by (simp add: I_def dist_def)
  qed
  have cost: "0 \<le> pred ! v \<and> pred ! v < int n \<and>
      dist ! v = (if pred ! v = 0 then 0 else dist ! nat (pred ! v)) + mat ! (nat (pred ! v) * n + v)"
    if "0 < v" "v < n" for v
  proof -
    from gi that have b: "0 \<le> gpred procs loc_n v" "gpred procs loc_n v < int n"
      and c: "gdist procs loc_n v =
          sdist procs loc_n (nat (gpred procs loc_n v)) +
          gmat loc_mats loc_n (nat (gpred procs loc_n v)) v"
      unfolding ginv_def by simp_all
    from b have u: "nat (gpred procs loc_n v) < n"
      by (simp add: nat_less_iff)
    have "(nat (gpred procs loc_n v) = 0) = (gpred procs loc_n v = 0)"
      using b(1) by auto
    with c gm u that b show ?thesis
      by (simp add: dist_def pred_def sdist_def)
  qed
  from gd gp d0 cost show ?thesis
    unfolding loc_n_def
    by (intro exI [of _ dist] exI [of _ pred]) (simp add: dist_def pred_def)
qed

theorem path_cost_consistency_witness:
  "\<exists>dist pred.
     MPI_Gather (map loc_dist [\<lparr>loc_dist = [0, 5], loc_pred = [0, 2], known = [1, 1]\<rparr>,
                               \<lparr>loc_dist = [2, 3], loc_pred = [0, 2], known = [1, 1]\<rparr>])
       (MPI_Type_contiguous (4 div 2)) (replicate 4 None) = Inr (map Some dist) \<and>
     MPI_Gather (map loc_pred [\<lparr>loc_dist = [0, 5], loc_pred = [0, 2], known = [1, 1]\<rparr>,
                               \<lparr>loc_dist = [2, 3], loc_pred = [0, 2], known = [1, 1]\<rparr>])
       (MPI_Type_contiguous (4 div 2)) (replicate 4 None) = Inr (map Some pred) \<and>
     length dist = 4 \<and> length pred = 4 \<and>
     dist ! 0 = [0, 10, 2, 1000000, 4, 0, 5, 6, 7, 3, 0, 1, 8, 7, 6, 0] ! 0 \<and>
     (\<forall>v. 0 < v \<and> v < 4 \<longrightarrow>
        0 \<le> pred ! v \<and> pred ! v < int 4 \<and>
        dist ! v =
          (if pred ! v = 0 then 0 else dist ! nat (pred ! v)) +
          [0, 10, 2, 1000000, 4, 0, 5, 6, 7, 3, 0, 1, 8, 7, 6, 0] ! (nat (pred ! v) * 4 + v))"
proof -
  let ?mat = "[0, 10, 2, 1000000, 4, 0, 5, 6, 7, 3, 0, 1, 8, 7, 6, 0 :: int]"
  have h: "(0::nat) < 2" "(2::nat) dvd 4" "length ?mat = 4 * 4"
    by simp_all
  have run: "main_run 2 4 ?mat =
      Inr [\<lparr>loc_dist = [0, 5], loc_pred = [0, 2], known = [1, 1]\<rparr>,
           \<lparr>loc_dist = [2, 3], loc_pred = [0, 2], known = [1, 1]\<rparr>]"
    by code_simp
  show ?thesis
    by (rule path_cost_consistency [OF h run])
qed

text \<open>
  Claim C7 as stated fails where the diagonal entry of the source is not 0: for one
  process and the matrix with rows (5, 1) and (1, 0) the run ends with the distances
  (5, 1) and the predecessors (0, 0), and the distance 1 of vertex 1 is not the distance 5
  stored for its predecessor plus the weight 1.
\<close>

theorem path_cost_with_stored_source_distance_fails:
  "main_run 1 2 [5, 1, 1, 0] = Inr [\<lparr>loc_dist = [5, 1], loc_pred = [0, 0], known = [1, 1]\<rparr>] \<and>
   MPI_Gather (map loc_dist [\<lparr>loc_dist = [5, 1], loc_pred = [0, 0], known = [1, 1]\<rparr>])
     (MPI_Type_contiguous (2 div 1)) (replicate 2 None) = Inr (map Some [5, 1]) \<and>
   MPI_Gather (map loc_pred [\<lparr>loc_dist = [5, 1], loc_pred = [0, 0], known = [1, 1]\<rparr>])
     (MPI_Type_contiguous (2 div 1)) (replicate 2 None) = Inr (map Some [0, 0]) \<and>
   [5, 1 :: int] ! 1 \<noteq> [5, 1] ! nat ([0, 0 :: int] ! 1) + [5, 1, 1, 0] ! (nat ([0, 0 :: int] ! 1) * 2 + 1)"
  by code_simp

section \<open>The claims about the whole program\<close>

text \<open>
  Claim C2, as the code has it. No statement of the program raises a configuration error,
  whether \<open>p\<close> divides \<open>n\<close> or not. For any \<open>p\<close> of at least 1, the program takes
  \<open>n div p\<close> columns per process, and \<^verbatim>\<open>Read_matrix\<close> hands rank \<open>k\<close> the columns from
  \<open>k * (n div p)\<close> on; the columns from \<open>p * (n div p)\<close> on are handed to nobody. For
  \<open>p\<close> at most \<open>n\<close>, lines 279-289 of \<^verbatim>\<open>Dijkstra\<close> then complete on every process, and the
  program goes into the main loop of line 293 with the arrays they have set.
\<close>

theorem no_divisibility_check:
  "main_run p n mat \<noteq> Inl ConfigError \<and> main p n mat \<noteq> Some (Inl ConfigError) \<and>
   (0 < p \<and> length mat = n * n \<and> int n * int n \<le> INT_MAX \<longrightarrow>
      (\<exists>loc_mats.
         Read_matrix mat n (n div p) (Build_blk_col_type n (n div p)) p = Inr loc_mats \<and>
         loc_mats =
           map (\<lambda>k. map (\<lambda>m. mat ! (k * (n div p) + (m div (n div p) * n + m mod (n div p))))
                         [0..<n * (n div p)]) [0..<p] \<and>
         (p \<le> n \<longrightarrow>
            (\<exists>procs. Dijkstra_start loc_mats (n div p) = Inr procs \<and>
               main_run p n mat =
                 for_loop 1 n (\<lambda>i. Dijkstra_round loc_mats (n div p)) procs))))"
proof (intro conjI impI)
  show "main_run p n mat \<noteq> Inl ConfigError"
    by (rule main_run_no_config)
  show "main p n mat \<noteq> Some (Inl ConfigError)"
    by (rule main_no_config)
next
  assume h: "0 < p \<and> length mat = n * n \<and> int n * int n \<le> INT_MAX"
  define loc_n where "loc_n = n div p"
  define loc_mats where "loc_mats =
    map (\<lambda>k. map (\<lambda>m. mat ! (k * loc_n + (m div loc_n * n + m mod loc_n)))
                  [0..<n * loc_n]) [0..<p]"
  have le: "p * loc_n \<le> n"
    by (simp add: loc_n_def)
  from Read_matrix_spec [OF le] h
  have r: "Read_matrix mat n loc_n (Build_blk_col_type n loc_n) p = Inr loc_mats"
    by (simp add: loc_mats_def)
  have lm: "length loc_mats = p" "\<forall>r<p. length (loc_mats ! r) = n * loc_n"
    by (simp_all add: loc_mats_def)
  have loop: "\<exists>procs. Dijkstra_start loc_mats loc_n = Inr procs \<and>
      main_run p n mat = for_loop 1 n (\<lambda>i. Dijkstra_round loc_mats loc_n) procs" if "p \<le> n"
  proof -
    from that h have n0: "0 < n"
      by simp
    from that h have l0: "0 < loc_n"
      by (simp add: loc_n_def div_greater_zero_iff)
    from Dijkstra_start_total [OF lm n0 l0] obtain procs where
      s: "Dijkstra_start loc_mats loc_n = Inr procs"
      by blast
    with r have "main_run p n mat = for_loop 1 n (\<lambda>i. Dijkstra_round loc_mats loc_n) procs"
      by (simp add: main_run_def Let_def loc_n_def [symmetric] Dijkstra_def)
    with s show ?thesis
      by blast
  qed
  from r loop show "\<exists>loc_mats.
         Read_matrix mat n (n div p) (Build_blk_col_type n (n div p)) p = Inr loc_mats \<and>
         loc_mats =
           map (\<lambda>k. map (\<lambda>m. mat ! (k * (n div p) + (m div (n div p) * n + m mod (n div p))))
                         [0..<n * (n div p)]) [0..<p] \<and>
         (p \<le> n \<longrightarrow>
            (\<exists>procs. Dijkstra_start loc_mats (n div p) = Inr procs \<and>
               main_run p n mat =
                 for_loop 1 n (\<lambda>i. Dijkstra_round loc_mats (n div p)) procs))"
    unfolding loc_mats_def loc_n_def by blast
qed

theorem no_divisibility_check_witness:
  "main_run 2 3 [0, 1, 2, 4, 0, 5, 7, 8, 0] \<noteq> Inl ConfigError \<and>
   main 2 3 [0, 1, 2, 4, 0, 5, 7, 8, 0] \<noteq> Some (Inl ConfigError) \<and>
   Read_matrix [0, 1, 2, 4, 0, 5, 7, 8, 0] 3 (3 div 2) (Build_blk_col_type 3 (3 div 2)) 2 =
     Inr [[0, 4, 7], [1, 0, 8]] \<and>
   (\<exists>procs. Dijkstra_start [[0, 4, 7], [1, 0, 8]] (3 div 2) = Inr procs \<and>
      main_run 2 3 [0, 1, 2, 4, 0, 5, 7, 8, 0] =
        for_loop 1 3 (\<lambda>i. Dijkstra_round [[0, 4, 7], [1, 0, 8]] (3 div 2)) procs)"
proof -
  let ?mat = "[0, 1, 2, 4, 0, 5, 7, 8, 0 :: int]"
  have h: "(0::nat) < 2 \<and> length ?mat = 3 * 3 \<and> int 3 * int 3 \<le> INT_MAX"
    by (simp add: INT_MAX_def)
  have e: "map (\<lambda>k. map (\<lambda>m. ?mat ! (k * (3 div 2) + (m div (3 div 2) * 3 + m mod (3 div 2))))
                          [0..<3 * (3 div 2)]) [0..<2] = [[0, 4, 7], [1, 0, 8]]"
    by code_simp
  have le: "(2::nat) \<le> 3"
    by simp
  from no_divisibility_check [of 2 3 ?mat] h le show ?thesis
    unfolding e by blast
qed

text \<open>
  Claim C2 as stated fails: for 2 processes and 3 vertices, 2 not dividing 3, no
  configuration error is raised; \<^verbatim>\<open>Dijkstra\<close> runs its two passes on one column per
  process and returns with the distance of vertex 1, and \<^verbatim>\<open>Print_dists\<close> then reads the
  element of vertex 2, which no process has sent.
\<close>

theorem no_config_error_when_p_does_not_divide_n:
  "\<not> (2::nat) dvd 3 \<and>
   main_run 2 3 [0, 1, 2, 4, 0, 5, 7, 8, 0] =
     Inr [\<lparr>loc_dist = [0], loc_pred = [0], known = [1]\<rparr>,
          \<lparr>loc_dist = [1], loc_pred = [0], known = [1]\<rparr>] \<and>
   main 2 3 [0, 1, 2, 4, 0, 5, 7, 8, 0] = Some (Inl UninitRead)"
  by code_simp

text \<open>
  Claim C4 fails on the code. For one process and the matrix with rows (0, 1000000) and
  (1000000, 0), vertex 1 is unknown at distance 1000000: the process contributes the
  sentinel, the reduction returns the vertex \<open>u\<close> = 1000000, which is not below \<open>n\<close> = 2,
  and the relaxation of vertex 1 reads the element 1000000 * 2 + 1 of a block of 4
  elements.
\<close>

theorem sentinel_winner_read_out_of_bounds:
  "Read_matrix [0, 1000000, 1000000, 0] 2 (2 div 1) (Build_blk_col_type 2 (2 div 1)) 1 =
     Inr [[0, 1000000, 1000000, 0]] \<and>
   Dijkstra_start [[0, 1000000, 1000000, 0]] 2 =
     Inr [\<lparr>loc_dist = [0, 1000000], loc_pred = [0, 0], known = [1, 0]\<rparr>] \<and>
   my_min [0, 1000000] [1, 0] 2 0 = Inr (1000000, 1000000) \<and>
   MPI_Allreduce_MINLOC [(1000000, 1000000)] = [(1000000, 1000000)] \<and>
   relax [0, 1000000, 1000000, 0] 2 1000000 1000000 1
     \<lparr>loc_dist = [0, 1000000], loc_pred = [0, 0], known = [1, 0]\<rparr> = Inl OutOfBounds \<and>
   rd [0, 1000000, 1000000, 0] (1000000 * 2 + 1) = Inl OutOfBounds \<and>
   Dijkstra_round [[0, 1000000, 1000000, 0]] 2
     [\<lparr>loc_dist = [0, 1000000], loc_pred = [0, 0], known = [1, 0]\<rparr>] = Inl OutOfBounds \<and>
   main_run 1 2 [0, 1000000, 1000000, 0] = Inl OutOfBounds"
  by code_simp

text \<open>
  Claim C1 fails on the code. For one process and the matrix with rows (0, 1000000) and
  (1000000, 0) the sequential reference ends with the distances (0, 1000000), while the
  engine reads outside its block and produces no distances.
\<close>

theorem engine_differs_from_sequential_reference:
  "main_run 1 2 [0, 1000000, 1000000, 0] = Inl OutOfBounds \<and>
   main 1 2 [0, 1000000, 1000000, 0] = Some (Inl OutOfBounds) \<and>
   fst (spec_seq_Dijkstra 2 [0, 1000000, 1000000, 0]) = [0, 1000000]"
  by code_simp

text \<open>
  Claim C6 fails on the code. For two processes and the matrix with rows (0, 1000000) and
  (1000000, 0), the process of rank 1 enters the first pass with its one vertex, local
  index 0 and global number 1, unknown at distance 1000000. \<^verbatim>\<open>Find_min_dist\<close>, which by
  its header returns the unknown vertex of least distance, compares with \<^verbatim>\<open><\<close> against
  1000000 and returns 1000000; the process contributes the sentinel and not the pair
  (1000000, 1) of its unknown vertex.
\<close>

theorem Find_min_dist_misses_unknown_at_infinity:
  "Read_matrix [0, 1000000, 1000000, 0] 2 (2 div 2) (Build_blk_col_type 2 (2 div 2)) 2 =
     Inr [[0, 1000000], [1000000, 0]] \<and>
   Dijkstra_start [[0, 1000000], [1000000, 0]] 1 =
     Inr [\<lparr>loc_dist = [0], loc_pred = [0], known = [1]\<rparr>,
          \<lparr>loc_dist = [1000000], loc_pred = [0], known = [0]\<rparr>] \<and>
   Find_min_dist [1000000] [0] 1 = Inr 1000000 \<and>
   Find_min_dist [1000000] [0] 1 \<noteq> Inr 0 \<and>
   my_min [1000000] [0] 1 1 = Inr (1000000, 1000000) \<and>
   my_min [1000000] [0] 1 1 \<noteq> Inr (1000000, 1)"
  by code_simp

text \<open>
  Claim C10 fails on the code. For two processes and the matrix with rows (0, 1000000)
  and (1000000, 0), the single pass gets the vertex 1000000 from the reduction: no
  process owns it, so no element of \<^verbatim>\<open>known\<close> is set, rank 0 keeps its arrays, and rank 1
  reads the element 1000000 * 1 + 0 of its block of 2 elements. Vertex 1 is never known.
\<close>

theorem known_not_covered_after_sentinel_round:
  "Dijkstra_start [[0, 1000000], [1000000, 0]] 1 =
     Inr [\<lparr>loc_dist = [0], loc_pred = [0], known = [1]\<rparr>,
          \<lparr>loc_dist = [1000000], loc_pred = [0], known = [0]\<rparr>] \<and>
   MPI_Allreduce_MINLOC [(1000000, 1000000), (1000000, 1000000)] =
     [(1000000, 1000000), (1000000, 1000000)] \<and>
   Dijkstra_update [0, 1000000] 1 0 (1000000, 1000000)
     \<lparr>loc_dist = [0], loc_pred = [0], known = [1]\<rparr> =
     Inr \<lparr>loc_dist = [0], loc_pred = [0], known = [1]\<rparr> \<and>
   Dijkstra_update [1000000, 0] 1 1 (1000000, 1000000)
     \<lparr>loc_dist = [1000000], loc_pred = [0], known = [0]\<rparr> = Inl OutOfBounds \<and>
   Dijkstra_round [[0, 1000000], [1000000, 0]] 1
     [\<lparr>loc_dist = [0], loc_pred = [0], known = [1]\<rparr>,
      \<lparr>loc_dist = [1000000], loc_pred = [0], known = [0]\<rparr>] = Inl OutOfBounds \<and>
   main_run 2 2 [0, 1000000, 1000000, 0] = Inl OutOfBounds \<and>
   main 2 2 [0, 1000000, 1000000, 0] = Some (Inl OutOfBounds)"
  by code_simp
end
